theory Spec2Isabelle
  imports Main "HOL-Library.Sublist"
begin

section \<open>Strings\<close>

text \<open>
  A Python \<open>str\<close> is modelled as a \<open>string\<close>, one \<open>char\<close> per code point; the model
  covers the code points below 256. Among these, \<open>str.strip()\<close> and the regular expression
  class \<open>\s\<close> both treat exactly the following ones as whitespace, and \<open>\d\<close> accepts
  exactly the ten ASCII digits.
\<close>

definition is_space :: "char \<Rightarrow> bool" where
  "is_space c = (c \<in> set [CHR 0x09, CHR 0x0A, CHR 0x0B, CHR 0x0C, CHR 0x0D,
                            CHR 0x1C, CHR 0x1D, CHR 0x1E, CHR 0x1F, CHR 0x20,
                            CHR 0x85, CHR 0xA0])"

definition is_digit :: "char \<Rightarrow> bool" where
  "is_digit c = (c \<in> set ''0123456789'')"

definition strip :: "string \<Rightarrow> string" where
  "strip s = rev (dropWhile is_space (rev (dropWhile is_space s)))"

text \<open>The substring test \<open>sub in s\<close>.\<close>

fun contains :: "string \<Rightarrow> string \<Rightarrow> bool" where
  "contains sub [] = (sub = [])"
| "contains sub (x # xs) = (prefix sub (x # xs) \<or> contains sub xs)"

section \<open>Regular expressions as the converter uses them\<close>

text \<open>
  The patterns of \<open>convert_condition\<close> are built from literal text, greedy repetitions
  of a single character class (\<open>[^)]+\<close>, \<open>\s+\<close>, \<open>\s*\<close>, \<open>[!<>=]+\<close>, \<open>\d+\<close>),
  capture groups, one optional group and one negative lookahead. No pattern contains the
  wildcard \<open>.\<close>, so the flag \<open>re.DOTALL\<close> changes nothing.
\<close>

datatype cclass = AnyOf string | NoneOf string | Space | Digit

fun in_class :: "cclass \<Rightarrow> char \<Rightarrow> bool" where
  "in_class (AnyOf cs) c = (c \<in> set cs)"
| "in_class (NoneOf cs) c = (c \<notin> set cs)"
| "in_class Space c = is_space c"
| "in_class Digit c = is_digit c"

datatype regex =
    Eps
  | Lit string
  | Plus cclass
  | Star cclass
  | Seq regex regex
  | Group nat regex
  | Opt regex
  | NotAhead regex

type_synonym groups = "(nat \<times> string) list"

text \<open>
  \<open>runs p s\<close> lists what is left of \<open>s\<close> after consuming one or more leading
  characters that satisfy \<open>p\<close>, the longest run first: the order in which a greedy
  repetition gives characters back when the rest of the pattern fails.
\<close>

fun runs :: "(char \<Rightarrow> bool) \<Rightarrow> string \<Rightarrow> string list" where
  "runs p [] = []"
| "runs p (x # xs) = (if p x then runs p xs @ [xs] else [])"

text \<open>
  \<open>rmatch r (s, g)\<close> is the backtracking search of \<open>re.match\<close>: all ways of matching
  \<open>r\<close> at the start of \<open>s\<close>, in the order the engine tries them, each with the rest of
  the input and the groups captured so far (most recent first).
\<close>

fun rmatch :: "regex \<Rightarrow> string \<times> groups \<Rightarrow> (string \<times> groups) list" where
  "rmatch Eps st = [st]"
| "rmatch (Lit l) (s, g) = (if prefix l s then [(drop (length l) s, g)] else [])"
| "rmatch (Plus c) (s, g) = map (\<lambda>s'. (s', g)) (runs (in_class c) s)"
| "rmatch (Star c) (s, g) = map (\<lambda>s'. (s', g)) (runs (in_class c) s @ [s])"
| "rmatch (Seq a b) st = concat (map (rmatch b) (rmatch a st))"
| "rmatch (Group i r) (s, g) =
     map (\<lambda>(s', g'). (s', (i, take (length s - length s') s) # g')) (rmatch r (s, g))"
| "rmatch (Opt r) st = rmatch r st @ [st]"
| "rmatch (NotAhead r) st = (if rmatch r st = [] then [st] else [])"

definition seq :: "regex list \<Rightarrow> regex" where
  "seq rs = foldr Seq rs Eps"

text \<open>\<open>re.match(pattern, s)\<close>: the groups of the first match found, or \<open>None\<close>.\<close>

definition re_match :: "regex \<Rightarrow> string \<Rightarrow> groups option" where
  "re_match r s = (case rmatch r (s, []) of [] \<Rightarrow> None | (_, g) # _ \<Rightarrow> Some g)"

text \<open>\<open>match.group(i)\<close> is \<open>None\<close> for a group that took no part in the match.\<close>

definition group :: "groups \<Rightarrow> nat \<Rightarrow> string option" where
  "group g i = map_of g i"

text \<open>A value inside an f-string, and \<open>value or ""\<close>.\<close>

fun fmt :: "string option \<Rightarrow> string" where
  "fmt None = ''None''"
| "fmt (Some s) = s"

fun or_empty :: "string option \<Rightarrow> string" where
  "or_empty None = ''''"
| "or_empty (Some s) = s"

section \<open>The patterns of \<open>convert_condition\<close>\<close>

definition span :: "nat \<Rightarrow> regex list" where
  \<comment> \<open>\<open>trace\.has\(([^)]+)\)\<close>\<close>
  "span i = [Lit ''trace.has('', Group i (Plus (NoneOf '')'')), Lit '')'']"

definition where_group :: "nat \<Rightarrow> regex" where
  \<comment> \<open>\<open>(\.where\([^)]+\))\<close>\<close>
  "where_group i = Group i (seq [Lit ''.where('', Plus (NoneOf '')''), Lit '')''])"

definition and_kw :: "regex list" where
  \<comment> \<open>\<open>\s+and\s+\<close>\<close>
  "and_kw = [Plus Space, Lit ''and'', Plus Space]"

definition pattern1 :: regex where
  "pattern1 = seq (span 1 @ [Opt (where_group 2)] @ and_kw @ [Lit ''not'', Plus Space] @ span 3)"

definition pattern2 :: regex where
  "pattern2 = seq (span 1 @ and_kw @ span 2 @ and_kw @ span 3 @ [where_group 4])"

definition pattern3 :: regex where
  "pattern3 = seq (span 1 @ [where_group 2] @ and_kw @ span 3 @ [where_group 4])"

definition pattern4a :: regex where
  "pattern4a = seq (span 1 @ [where_group 2] @ and_kw @ span 3 @ [NotAhead (Lit ''.where'')])"

definition pattern4b :: regex where
  "pattern4b = seq (span 1 @ and_kw @ span 2 @ [where_group 3])"

definition pattern5 :: regex where
  "pattern5 = seq (span 1 @ and_kw @ span 2)"

definition count_span :: "nat \<Rightarrow> regex list" where
  \<comment> \<open>\<open>trace\.count\(([^)]+)\)\<close>\<close>
  "count_span i = [Lit ''trace.count('', Group i (Plus (NoneOf '')'')), Lit '')'']"

definition pattern6 :: regex where
  "pattern6 = seq (count_span 1 @ [Star Space, Group 2 (Plus (AnyOf ''!<>='')), Star Space]
                   @ count_span 3)"

definition pattern7 :: regex where
  "pattern7 = seq (count_span 1 @ [Star Space, Group 2 (Plus (AnyOf ''><=!'')), Star Space,
                   Group 3 (Plus Digit)])"

definition pattern8 :: regex where
  "pattern8 = seq (span 1 @ [where_group 2])"

definition pattern9 :: regex where
  "pattern9 = seq (span 1)"

section \<open>The recognizers and their cascade\<close>

text \<open>
  Each recognizer is one \<open>match = re.match(...); if match: return f"..."\<close> block of
  \<open>convert_condition\<close>: \<open>Some\<close> of the returned text when the pattern matches.
\<close>

definition recognizer1 :: "string \<Rightarrow> string option" where
  "recognizer1 condition = map_option
     (\<lambda>m. ''when { '' @ fmt (group m 1) @ or_empty (group m 2) @ '' } never { ''
          @ fmt (group m 3) @ '' }'')
     (re_match pattern1 condition)"

definition recognizer2 :: "string \<Rightarrow> string option" where
  "recognizer2 condition = map_option
     (\<lambda>m. ''when { '' @ fmt (group m 1) @ '' and '' @ fmt (group m 2) @ '' } always { ''
          @ fmt (group m 3) @ fmt (group m 4) @ '' }'')
     (re_match pattern2 condition)"

definition recognizer3 :: "string \<Rightarrow> string option" where
  "recognizer3 condition = map_option
     (\<lambda>m. ''when { '' @ fmt (group m 1) @ fmt (group m 2) @ '' } always { ''
          @ fmt (group m 3) @ fmt (group m 4) @ '' }'')
     (re_match pattern3 condition)"

definition recognizer4a :: "string \<Rightarrow> string option" where
  "recognizer4a condition = map_option
     (\<lambda>m. ''when { '' @ fmt (group m 1) @ fmt (group m 2) @ '' } always { ''
          @ fmt (group m 3) @ '' }'')
     (re_match pattern4a condition)"

definition recognizer4b :: "string \<Rightarrow> string option" where
  "recognizer4b condition = map_option
     (\<lambda>m. ''when { '' @ fmt (group m 1) @ '' } always { ''
          @ fmt (group m 2) @ fmt (group m 3) @ '' }'')
     (re_match pattern4b condition)"

definition recognizer5 :: "string \<Rightarrow> string option" where
  "recognizer5 condition = map_option
     (\<lambda>m. ''when { '' @ fmt (group m 1) @ '' } always { '' @ fmt (group m 2) @ '' }'')
     (re_match pattern5 condition)"

definition recognizer6 :: "string \<Rightarrow> string option" where
  "recognizer6 condition = map_option
     (\<lambda>m. ''# TODO: Add always/never clause\<newline>when { count('' @ fmt (group m 1) @ '') ''
          @ fmt (group m 2) @ '' count('' @ fmt (group m 3) @ '') }'')
     (re_match pattern6 condition)"

definition recognizer7 :: "string \<Rightarrow> string option" where
  "recognizer7 condition = map_option
     (\<lambda>m. ''# TODO: Add always/never clause (e.g., always { alert })\<newline>when { count(''
          @ fmt (group m 1) @ '') '' @ fmt (group m 2) @ '' '' @ fmt (group m 3) @ '' }'')
     (re_match pattern7 condition)"

definition recognizer8 :: "string \<Rightarrow> string option" where
  "recognizer8 condition = map_option
     (\<lambda>m. ''# TODO: Add always/never clause\<newline>when { '' @ fmt (group m 1)
          @ fmt (group m 2) @ '' }'')
     (re_match pattern8 condition)"

definition recognizer9 :: "string \<Rightarrow> string option" where
  "recognizer9 condition = map_option
     (\<lambda>m. ''# TODO: Add always/never clause\<newline>when { '' @ fmt (group m 1) @ '' }'')
     (re_match pattern9 condition)"

definition manual_review :: "string \<Rightarrow> string" where
  "manual_review condition =
     ''# TODO: Manual conversion required\<newline># Original: '' @ condition"

definition convert_condition :: "string \<Rightarrow> string" where
  "convert_condition old_condition =
    (let condition = strip old_condition in
     (case recognizer1 condition of Some out \<Rightarrow> out | None \<Rightarrow>
     (case recognizer2 condition of Some out \<Rightarrow> out | None \<Rightarrow>
     (case recognizer3 condition of Some out \<Rightarrow> out | None \<Rightarrow>
     (case recognizer4a condition of Some out \<Rightarrow> out | None \<Rightarrow>
     (case recognizer4b condition of Some out \<Rightarrow> out | None \<Rightarrow>
     (case recognizer5 condition of Some out \<Rightarrow> out | None \<Rightarrow>
     (case recognizer6 condition of Some out \<Rightarrow> out | None \<Rightarrow>
     (case recognizer7 condition of Some out \<Rightarrow> out | None \<Rightarrow>
     (case recognizer8 condition of Some out \<Rightarrow> out | None \<Rightarrow>
     (case recognizer9 condition of Some out \<Rightarrow> out | None \<Rightarrow>
      manual_review condition)))))))))))"

text \<open>
  The patterns and the recognizers in the order in which \<open>convert_condition\<close> tries them.
\<close>

definition patterns :: "regex list" where
  "patterns = [pattern1, pattern2, pattern3, pattern4a, pattern4b,
               pattern5, pattern6, pattern7, pattern8, pattern9]"

definition recognizers :: "(string \<Rightarrow> string option) list" where
  "recognizers = [recognizer1, recognizer2, recognizer3, recognizer4a, recognizer4b,
                  recognizer5, recognizer6, recognizer7, recognizer8, recognizer9]"

text \<open>\<open>match.group(0)\<close>: the text that the first match found covers, or \<open>None\<close>.\<close>

definition group0 :: "regex \<Rightarrow> string \<Rightarrow> string option" where
  "group0 r s = (case rmatch r (s, []) of
                   [] \<Rightarrow> None
                 | (s', _) # _ \<Rightarrow> Some (take (length s - length s') s))"


section \<open>The batch converter\<close>

text \<open>
  \<open>yaml.safe_load\<close> returns a graph of objects: an anchor and its aliases are one and the
  same \<open>dict\<close> or \<open>list\<close>, and the loop of \<open>convert_yaml_file\<close> changes the rule records
  in place. So the document is kept in a store: a scalar is a value by itself, a mapping or
  a list is an object in the store, and a value refers to it by its address, its position
  in the store. A mapping keeps its keys in insertion order, as a Python \<open>dict\<close> does; keys
  are strings. The model is of the document in memory, between loading and dumping.
\<close>

datatype val =
    VNull
  | VBool bool
  | VInt int
  | VStr string
  | VRef nat

datatype obj =
    ODict "(string \<times> val) list"
  | OList "val list"

type_synonym store = "obj list"

text \<open>
  \<open>Dangling\<close> is not an exception of the program: it is what the model returns on a
  store in which a reference leads outside the store, which no loaded document is.
\<close>

datatype error = AttributeError | TypeError | Dangling

definition deref :: "store \<Rightarrow> nat \<Rightarrow> obj option" where
  "deref st a = (if a < length st then Some (st ! a) else None)"

text \<open>\<open>d[k] = v\<close>: an existing key keeps its place, a new key goes last.\<close>

fun dict_set :: "string \<Rightarrow> val \<Rightarrow> (string \<times> val) list \<Rightarrow> (string \<times> val) list" where
  "dict_set k v [] = [(k, v)]"
| "dict_set k v ((k', v') # kvs) =
     (if k = k' then (k, v) # kvs else (k', v') # dict_set k v kvs)"

definition in_marker :: string where
  "in_marker =
     ''# TODO: DSL doesn't support 'in' operator - convert to multiple != checks\<newline>''"

text \<open>
  The body of the loop on one condition: the new text to store, and by how much
  \<open>needs_review_count\<close> grows.
\<close>

definition convert_rule_condition :: "string \<Rightarrow> string \<times> nat" where
  "convert_rule_condition old_condition =
    (let new_condition = convert_condition old_condition;
         n = (if contains ''TODO'' new_condition \<or> contains ''#'' new_condition
              then 1 else 0)
     in if contains '' not in ['' new_condition \<or> contains '' in ['' new_condition
        then (in_marker @ new_condition, n + 1)
        else (new_condition, n))"

text \<open>
  One iteration of \<open>for rule in ...\<close>, in the store as it is when the iteration starts:
  the store after the iteration and the increments of \<open>converted_count\<close> and
  \<open>needs_review_count\<close>. \<open>'condition' in rule\<close> is a key test on a mapping, a substring
  test on a string and a membership test on a list, and raises on the other values;
  \<open>rule['condition']\<close> raises on a string and on a list; \<open>old_condition.strip()\<close> raises
  on a condition that is not a string. \<open>rule['condition'] = new_condition\<close> writes to the
  mapping object itself, so every reference to it sees the new condition.
\<close>

definition convert_rule :: "store \<Rightarrow> val \<Rightarrow> error + (store \<times> nat \<times> nat)" where
  "convert_rule st rule =
     (case rule of
        VRef b \<Rightarrow>
          (case deref st b of
             None \<Rightarrow> Inl Dangling
           | Some (ODict kvs) \<Rightarrow>
               (case map_of kvs ''condition'' of
                  None \<Rightarrow> Inr (st, 0, 0)
                | Some (VStr old_condition) \<Rightarrow>
                    (let (new_condition, n) = convert_rule_condition old_condition
                     in Inr (st[b := ODict (dict_set ''condition'' (VStr new_condition) kvs)],
                             1, n))
                | Some _ \<Rightarrow> Inl AttributeError)
           | Some (OList xs) \<Rightarrow>
               (if VStr ''condition'' \<in> set xs then Inl TypeError else Inr (st, 0, 0)))
      | VStr s \<Rightarrow> (if contains ''condition'' s then Inl TypeError else Inr (st, 0, 0))
      | _ \<Rightarrow> Inl TypeError)"

text \<open>
  The loop: the store and the counters are threaded through the iterations, so that an
  iteration sees what the earlier ones wrote; the first exception ends it.
\<close>

fun convert_rules :: "val list \<Rightarrow> store \<times> nat \<times> nat \<Rightarrow> error + (store \<times> nat \<times> nat)" where
  "convert_rules [] (st, converted_count, needs_review_count) =
     Inr (st, converted_count, needs_review_count)"
| "convert_rules (rule # rest) (st, converted_count, needs_review_count) =
     (case convert_rule st rule of
        Inl e \<Rightarrow> Inl e
      | Inr (st', c, n) \<Rightarrow>
          convert_rules rest (st', converted_count + c, needs_review_count + n))"

text \<open>
  \<open>convert_yaml_file\<close> on the loaded document \<open>data\<close> in the store \<open>st\<close>: the store that is
  dumped, and the returned pair \<open>(converted_count, needs_review_count)\<close>. \<open>data.get\<close>
  exists on a mapping only. The value under \<open>rules\<close> is read once, before the loop;
  iterating over a list gives its elements, over a mapping its keys, over a string its
  characters, and the other values cannot be iterated over. The loop never writes to a list.
\<close>

definition convert_yaml_file :: "store \<Rightarrow> val \<Rightarrow> error + (store \<times> nat \<times> nat)" where
  "convert_yaml_file st data =
    (case data of
       VRef a \<Rightarrow>
         (case deref st a of
            None \<Rightarrow> Inl Dangling
          | Some (ODict entries) \<Rightarrow>
              (case map_of entries ''rules'' of
                 None \<Rightarrow> Inr (st, 0, 0)
               | Some (VRef r) \<Rightarrow>
                   (case deref st r of
                      None \<Rightarrow> Inl Dangling
                    | Some (OList rules) \<Rightarrow> convert_rules rules (st, 0, 0)
                    | Some (ODict m) \<Rightarrow>
                        convert_rules (map (\<lambda>(k, v). VStr k) m) (st, 0, 0))
               | Some (VStr s) \<Rightarrow> convert_rules (map (\<lambda>c. VStr [c]) s) (st, 0, 0)
               | Some _ \<Rightarrow> Inl TypeError)
          | Some (OList xs) \<Rightarrow> Inl AttributeError)
     | _ \<Rightarrow> Inl AttributeError)"

text \<open>
  The store of a document with the given conditions, one rule each, and nothing else: the
  document is at address 0, the list of rules at address 1, the rules follow.
\<close>

definition rules_doc :: "string list \<Rightarrow> store" where
  "rules_doc conditions =
     ODict [(''rules'', VRef 1)]
     # OList (map VRef [2 ..< 2 + length conditions])
     # map (\<lambda>c. ODict [(''condition'', VStr c)]) conditions"

section \<open>What the batch converter leaves alone\<close>

text \<open>
  Two mappings have the same keys in the same order, and the same value under every key
  other than \<open>k\<close>.
\<close>

definition same_fields_except ::
  "string \<Rightarrow> (string \<times> 'v) list \<Rightarrow> (string \<times> 'v) list \<Rightarrow> bool" where
  "same_fields_except k kvs kvs' =
     list_all2 (\<lambda>(k1, v1) (k2, v2). k2 = k1 \<and> (k1 \<noteq> k \<longrightarrow> v2 = v1)) kvs kvs'"

text \<open>
  An object and its later state: a list is unchanged; a mapping differs at most in what is
  under \<open>condition\<close>. With this for every address, every list, so also the list of
  records, holds the same values in the same order, and every mapping holds the same
  keys in the same order and, condition apart, the same scalars and the same references.
\<close>

definition object_frame :: "obj \<Rightarrow> obj \<Rightarrow> bool" where
  "object_frame ob ob' =
     (case (ob, ob') of
        (ODict kvs, ODict kvs') \<Rightarrow> same_fields_except ''condition'' kvs kvs'
      | _ \<Rightarrow> ob' = ob)"

definition store_frame :: "store \<Rightarrow> store \<Rightarrow> bool" where
  "store_frame st st' = list_all2 object_frame st st'"

text \<open>The addresses that the elements of the list under \<open>rules\<close> refer to: the rule records.\<close>

definition rule_records :: "store \<Rightarrow> val \<Rightarrow> nat list" where
  "rule_records st data =
     (case data of
        VRef a \<Rightarrow>
          (case deref st a of
             Some (ODict entries) \<Rightarrow>
               (case map_of entries ''rules'' of
                  Some (VRef r) \<Rightarrow>
                    (case deref st r of
                       Some (OList rules) \<Rightarrow>
                         concat (map (\<lambda>v. case v of VRef b \<Rightarrow> [b] | _ \<Rightarrow> []) rules)
                     | _ \<Rightarrow> [])
                | _ \<Rightarrow> [])
           | _ \<Rightarrow> [])
      | _ \<Rightarrow> [])"

text \<open>
  The document as the tree of values that it shows when every reference is followed, which
  is how a reader of the dumped file sees a field's value; \<open>depth\<close> bounds the nesting.
\<close>

datatype yval =
    YNull
  | YBool bool
  | YInt int
  | YStr string
  | YList "yval list"
  | YMap "(string \<times> yval) list"

fun resolve :: "nat \<Rightarrow> store \<Rightarrow> val \<Rightarrow> yval option" where
  "resolve depth st VNull = Some YNull"
| "resolve depth st (VBool b) = Some (YBool b)"
| "resolve depth st (VInt i) = Some (YInt i)"
| "resolve depth st (VStr s) = Some (YStr s)"
| "resolve 0 st (VRef a) = None"
| "resolve (Suc depth) st (VRef a) =
     (case deref st a of
        None \<Rightarrow> None
      | Some (OList xs) \<Rightarrow> map_option YList (those (map (resolve depth st) xs))
      | Some (ODict kvs) \<Rightarrow>
          map_option YMap
            (those (map (\<lambda>(k, v). map_option (Pair k) (resolve depth st v)) kvs)))"

text \<open>A rule record and its counterpart, as trees, differ at most in the field \<open>condition\<close>.\<close>

definition rule_frame :: "yval \<Rightarrow> yval \<Rightarrow> bool" where
  "rule_frame r r' =
     (case (r, r') of
        (YMap f, YMap f') \<Rightarrow> same_fields_except ''condition'' f f'
      | _ \<Rightarrow> r' = r)"

definition rules_frame :: "yval \<Rightarrow> yval \<Rightarrow> bool" where
  "rules_frame v v' =
     (case (v, v') of
        (YList rs, YList rs') \<Rightarrow> list_all2 rule_frame rs rs'
      | _ \<Rightarrow> v' = v)"

text \<open>
  A document and its counterpart, as trees, have the same top-level entries in the same
  order; under \<open>rules\<close> they hold the same number of records, in the same order, each
  differing at most in its \<open>condition\<close>.
\<close>

definition document_frame :: "yval \<Rightarrow> yval \<Rightarrow> bool" where
  "document_frame d d' =
     (case (d, d') of
        (YMap es, YMap es') \<Rightarrow>
          list_all2 (\<lambda>(k1, v1) (k2, v2).
              k2 = k1 \<and> (if k1 = ''rules'' then rules_frame v1 v2 else v2 = v1)) es es'
      | _ \<Rightarrow> d' = d)"

section \<open>The parser's diagnostics\<close>

text \<open>
  The parser, its lexer and the class \<open>ParseError\<close> are Java sources that are not among the
  source files. \<open>refactor-parser.py\<close> rewrites every \<open>throw\<close> of the parser: the lexer is
  created on \<open>dsl.trim()\<close>, and each rewritten \<open>throw\<close> passes \<open>lexer.getInput()\<close> and
  \<open>token.position()\<close>, the position of a token that \<open>lexer.next()\<close> returned; the one
  exception is \<open>ParseError.unexpectedEnd(dsl)\<close> for an empty input. What the lexer and the
  factories of \<open>ParseError\<close> do with these arguments is taken from the specification.
  Offsets count characters from 0, so they are natural numbers. The message of an error and
  the texts it is composed of play no part here and are left out.
\<close>

datatype token_kind =
    Identifier | Keyword | Punctuation | ComparisonOperator | Literal
  | ListOpen | ListClose | Invalid | EndOfInput

record token =
  tok_kind :: token_kind
  tok_text :: string
  tok_position :: nat

datatype error_kind =
    UNEXPECTED_END | UNEXPECTED_TOKEN | MISSING_TOKEN
  | INVALID_IDENTIFIER | INVALID_VALUE | INVALID_OPERATOR

record parse_error =
  err_input :: string
  err_position :: nat
  err_kind :: error_kind
  err_hint :: "string option"

text \<open>
  Modelled from the spec: what the lexer takes for whitespace and how it recognizes one
  token are not given beyond the list of token kinds, so they are parameters: \<open>is_blank\<close>
  tells whitespace, and \<open>scan_token\<close> gives, for the text at a token's start, the token's
  kind and its number of characters.
\<close>

record lexicon =
  is_blank :: "char \<Rightarrow> bool"
  scan_token :: "string \<Rightarrow> token_kind \<times> nat"

text \<open>
  Modelled from the spec: the lexer, which is missing from the source files. It retains
  the input it was created on (\<open>getInput()\<close>) and tracks a position in it.
\<close>

record lexer =
  lex_input :: string
  lex_pos :: nat

text \<open>\<open>String.trim()\<close> removes the leading and trailing characters up to U+0020.\<close>

definition java_trim :: "string \<Rightarrow> string" where
  "java_trim s =
     rev (dropWhile (\<lambda>c. of_char c \<le> (32::nat)) (rev (dropWhile (\<lambda>c. of_char c \<le> (32::nat)) s)))"

text \<open>\<open>this.lexer = new Lexer(dsl.trim())\<close>, as \<open>refactor-parser.py\<close> writes it.\<close>

definition new_lexer :: "string \<Rightarrow> lexer" where
  "new_lexer dsl = \<lparr>lex_input = java_trim dsl, lex_pos = 0\<rparr>"

text \<open>
  Modelled from the spec: \<open>lexer.next()\<close>, missing from the source files. Whitespace is
  skipped and advances the position by exactly the skipped length; the token that follows
  carries the position where it starts; at the end of the input the token is the
  end-of-input token. A token has at least one character and at most those that are left.
\<close>

definition lexer_next :: "lexicon \<Rightarrow> lexer \<Rightarrow> token \<times> lexer" where
  "lexer_next L lx =
     (let start = lex_pos lx
                  + length (takeWhile (is_blank L) (drop (lex_pos lx) (lex_input lx)));
          rest = drop start (lex_input lx)
      in if rest = []
         then (\<lparr>tok_kind = EndOfInput, tok_text = [], tok_position = start\<rparr>,
               lx\<lparr>lex_pos := start\<rparr>)
         else (let (k, n) = scan_token L rest;
                   len = min (max n 1) (length rest)
               in (\<lparr>tok_kind = k, tok_text = take len rest, tok_position = start\<rparr>,
                   lx\<lparr>lex_pos := start + len\<rparr>)))"

text \<open>The token that the \<open>n\<close>-th further call of \<open>lexer.next()\<close> returns, and the lexer after it.\<close>

fun nth_next :: "lexicon \<Rightarrow> lexer \<Rightarrow> nat \<Rightarrow> token \<times> lexer" where
  "nth_next L lx 0 = lexer_next L lx"
| "nth_next L lx (Suc n) = nth_next L (snd (lexer_next L lx)) n"

text \<open>
  Modelled from the spec: the hints of the two errors that \<open>refactor-parser.py\<close> builds with
  \<open>new ParseError(...)\<close> are the ones in the script; the other kinds carry none.
\<close>

fun hint_of :: "error_kind \<Rightarrow> string option" where
  "hint_of INVALID_IDENTIFIER = Some ''Valid functions are: has, count''"
| "hint_of INVALID_VALUE = Some ''Expected number, string, boolean, or list''"
| "hint_of k = None"

text \<open>
  Modelled from the spec: the constructor and the factories of \<open>ParseError\<close>
  (\<open>unexpectedToken\<close>, \<open>missingToken\<close>, \<open>invalidOperator\<close>), missing from the source files,
  called as the rewritten \<open>throw\<close> statements call them, with \<open>lexer.getInput()\<close> and
  \<open>token.position()\<close>: the error carries that input and that position.
\<close>

definition raise_at :: "error_kind \<Rightarrow> lexer \<Rightarrow> token \<Rightarrow> parse_error" where
  "raise_at k lx tok =
     \<lparr>err_input = lex_input lx, err_position = tok_position tok,
      err_kind = k, err_hint = hint_of k\<rparr>"

text \<open>
  Modelled from the spec: \<open>ParseError.unexpectedEnd(input)\<close>, missing from the source
  files; at the end the position is the input's length.
\<close>

definition unexpected_end :: "string \<Rightarrow> parse_error" where
  "unexpected_end inp =
     \<lparr>err_input = inp, err_position = length inp,
      err_kind = UNEXPECTED_END, err_hint = None\<rparr>"

section \<open>Auxiliary notions for the proofs\<close>

text \<open>
  \<open>rejects r p\<close>: \<open>r\<close> cannot match at a character satisfying \<open>p\<close>. A greedy repetition
  of \<open>p\<close> followed by such an \<open>r\<close> never has to give a character back. The \<open>scan\<close>
  functions are the deterministic readings of the building blocks of the patterns that
  result from it.
\<close>

definition rejects :: "regex \<Rightarrow> (char \<Rightarrow> bool) \<Rightarrow> bool" where
  "rejects r p = (\<forall>x t g. p x \<longrightarrow> rmatch r (x # t, g) = [])"

text \<open>
  The text after \<open>kw\<close> up to the next closing parenthesis, when it is not empty, and what
  follows that parenthesis: the reading of \<open>kw([^)]+)\<close>.
\<close>

definition scan_span :: "string \<Rightarrow> string \<Rightarrow> (string \<times> string) option" where
  "scan_span kw s =
     (if prefix kw s
      then (let s1 = drop (length kw) s in
            if takeWhile (in_class (NoneOf '')'')) s1 = [] then None
            else if prefix '')'' (dropWhile (in_class (NoneOf '')'')) s1)
            then Some (takeWhile (in_class (NoneOf '')'')) s1,
                       drop 1 (dropWhile (in_class (NoneOf '')'')) s1))
            else None)
      else None)"

text \<open>The reading of \<open>(\.where\([^)]+\))\<close>: the text of the group and what follows it.\<close>

definition scan_where :: "string \<Rightarrow> (string \<times> string) option" where
  "scan_where s =
     (case scan_span ''.where('' s of
        None \<Rightarrow> None
      | Some (b, s') \<Rightarrow> Some (take (length s - length s') s, s'))"

text \<open>The reading of \<open>\s+and\s+\<close> with both runs of whitespace as long as possible.\<close>

definition scan_and :: "string \<Rightarrow> string option" where
  "scan_and s =
     (if takeWhile (in_class Space) s = [] then None
      else if prefix ''and'' (dropWhile (in_class Space) s)
      then (let s2 = drop (length ''and'') (dropWhile (in_class Space) s) in
            if takeWhile (in_class Space) s2 = [] then None
            else Some (dropWhile (in_class Space) s2))
      else None)"

text \<open>Expressions without lookahead: what they match does not depend on later text.\<close>

fun la_free :: "regex \<Rightarrow> bool" where
  "la_free (NotAhead r) = False"
| "la_free (Seq a b) = (la_free a \<and> la_free b)"
| "la_free (Group i r) = la_free r"
| "la_free (Opt r) = la_free r"
| "la_free r = True"

text \<open>
  A state of the search with \<open>t\<close> put back after the rest of the input, and the states
  whose rest is at least as long as \<open>t\<close>.
\<close>

definition extend_rest :: "string \<Rightarrow> string \<times> groups \<Rightarrow> string \<times> groups" where
  "extend_rest t st = (fst st @ t, snd st)"

definition reaches :: "string \<Rightarrow> string \<times> groups \<Rightarrow> bool" where
  "reaches t st = (length t \<le> length (fst st))"

text \<open>Pattern 4a without its lookahead.\<close>

definition body4a :: regex where
  "body4a = seq (span 1 @ [where_group 2] @ and_kw @ span 3)"

text \<open>
  \<open>tight_end r\<close>: every match of \<open>r\<close> covers at least one character and ends in a
  character that is not whitespace.
\<close>

fun consumes_nothing :: "regex \<Rightarrow> bool" where
  "consumes_nothing Eps = True"
| "consumes_nothing (NotAhead r) = True"
| "consumes_nothing (Seq a b) = (consumes_nothing a \<and> consumes_nothing b)"
| "consumes_nothing r = False"

fun tight_end :: "regex \<Rightarrow> bool" where
  "tight_end (Lit l) = (l \<noteq> [] \<and> \<not> is_space (last l))"
| "tight_end (Plus c) = (\<forall>x. in_class c x \<longrightarrow> \<not> is_space x)"
| "tight_end (Seq a b) = (tight_end b \<or> (consumes_nothing b \<and> tight_end a))"
| "tight_end (Group i r) = tight_end r"
| "tight_end r = False"

text \<open>The result of the first function of a list that returns one.\<close>

fun first_some :: "('a \<Rightarrow> 'b option) list \<Rightarrow> 'a \<Rightarrow> 'b option" where
  "first_some [] x = None"
| "first_some (f # fs) x = (case f x of Some y \<Rightarrow> Some y | None \<Rightarrow> first_some fs x)"

section \<open>The regular expression engine\<close>

lemma runs_det:
  assumes "\<And>x t. p x \<Longrightarrow> f (x # t) = []"
  shows "concat (map f (runs p s)) = (if takeWhile p s = [] then [] else f (dropWhile p s))"
proof (induction s)
  case Nil
  show ?case by simp
next
  case (Cons x xs)
  show ?case
  proof (cases xs)
    case Nil
    then show ?thesis by simp
  next
    case (Cons y ys)
    with Cons.IH assms[of y ys] show ?thesis by auto
  qed
qed

lemma take_takeWhile: "take (length s - length (dropWhile p s)) s = takeWhile p s"
proof -
  have "length s = length (takeWhile p s) + length (dropWhile p s)"
    by (metis length_append takeWhile_dropWhile_id)
  then have "length s - length (dropWhile p s) = length (takeWhile p s)" by simp
  then show ?thesis by (metis takeWhile_eq_take)
qed

lemma seq_Lit:
  "rmatch (Seq (Lit l) r) (s, g) = (if prefix l s then rmatch r (drop (length l) s, g) else [])"
  by simp

lemma seq_Plus:
  assumes "rejects r (in_class c)"
  shows "rmatch (Seq (Plus c) r) (s, g) =
     (if takeWhile (in_class c) s = [] then []
      else rmatch r (dropWhile (in_class c) s, g))"
  using assms runs_det[of "in_class c" "\<lambda>s'. rmatch r (s', g)" s]
  by (simp add: rejects_def comp_def)

lemma seq_Group_Plus:
  assumes "rejects r (in_class c)"
  shows "rmatch (Seq (Group i (Plus c)) r) (s, g) =
     (if takeWhile (in_class c) s = [] then []
      else rmatch r (dropWhile (in_class c) s, (i, takeWhile (in_class c) s) # g))"
  using assms
    runs_det[of "in_class c" "\<lambda>s'. rmatch r (s', (i, take (length s - length s') s) # g)" s]
  by (simp add: rejects_def comp_def take_takeWhile)

lemma seq_Star:
  assumes "rejects r (in_class c)"
  shows "rmatch (Seq (Star c) r) (s, g) = rmatch r (dropWhile (in_class c) s, g)"
proof -
  have "rmatch (Seq (Star c) r) (s, g) =
        concat (map (\<lambda>s'. rmatch r (s', g)) (runs (in_class c) s)) @ rmatch r (s, g)"
    by (simp add: comp_def)
  also have "\<dots> = rmatch r (dropWhile (in_class c) s, g)"
    using assms runs_det[of "in_class c" "\<lambda>s'. rmatch r (s', g)" s]
    by (cases s) (auto simp: rejects_def)
  finally show ?thesis .
qed

lemma seq_Opt: "rmatch (Seq (Opt a) r) st = rmatch (Seq a r) st @ rmatch r st"
  by simp

lemma rejects_Lit: "l \<noteq> [] \<Longrightarrow> \<not> p (hd l) \<Longrightarrow> rejects (Seq (Lit l) r) p"
  by (cases l) (auto simp: rejects_def)

lemma rejects_Group_Plus:
  "(\<And>x. p x \<Longrightarrow> \<not> in_class c x) \<Longrightarrow> rejects (Seq (Group i (Plus c)) r) p"
  by (auto simp: rejects_def)

lemma rejects_Plus:
  "(\<And>x. p x \<Longrightarrow> \<not> in_class c x) \<Longrightarrow> rejects (Seq (Plus c) r) p"
  by (auto simp: rejects_def)

lemma rejects_Star:
  "(\<And>x. p x \<Longrightarrow> \<not> in_class c x) \<Longrightarrow> rejects r p \<Longrightarrow> rejects (Seq (Star c) r) p"
  by (auto simp: rejects_def)

lemma span_step:
  "rmatch (foldr Seq (span i) r) (s, g) =
     (case scan_span ''trace.has('' s of
        None \<Rightarrow> []
      | Some (a, s') \<Rightarrow> rmatch r (s', (i, a) # g))"
proof -
  have "rejects (Seq (Lit '')'') r) (in_class (NoneOf '')''))"
    by (rule rejects_Lit) simp_all
  then show ?thesis
    by (simp add: span_def scan_span_def seq_Lit seq_Group_Plus Let_def del: rmatch.simps)
qed

lemma count_step:
  "rmatch (foldr Seq (count_span i) r) (s, g) =
     (case scan_span ''trace.count('' s of
        None \<Rightarrow> []
      | Some (a, s') \<Rightarrow> rmatch r (s', (i, a) # g))"
proof -
  have "rejects (Seq (Lit '')'') r) (in_class (NoneOf '')''))"
    by (rule rejects_Lit) simp_all
  then show ?thesis
    by (simp add: count_span_def scan_span_def seq_Lit seq_Group_Plus Let_def del: rmatch.simps)
qed

lemma where_inner:
  "rmatch (seq [Lit ''.where('', Plus (NoneOf '')''), Lit '')'']) (s, g) =
     (case scan_span ''.where('' s of None \<Rightarrow> [] | Some (b, s') \<Rightarrow> [(s', g)])"
proof -
  have "rejects (Seq (Lit '')'') Eps) (in_class (NoneOf '')''))"
    by (rule rejects_Lit) simp_all
  then show ?thesis
    by (simp add: seq_def scan_span_def seq_Lit seq_Plus Let_def del: rmatch.simps(2-8))
qed

lemma where_step:
  "rmatch (Seq (where_group i) r) (s, g) =
     (case scan_where s of
        None \<Rightarrow> []
      | Some (w, s') \<Rightarrow> rmatch r (s', (i, w) # g))"
  by (simp add: where_group_def where_inner scan_where_def split: option.splits)

lemma and_step:
  assumes "rejects r (in_class Space)"
  shows "rmatch (foldr Seq and_kw r) (s, g) =
     (case scan_and s of None \<Rightarrow> [] | Some s' \<Rightarrow> rmatch r (s', g))"
proof -
  have "rejects (Seq (Lit ''and'') (Seq (Plus Space) r)) (in_class Space)"
    by (rule rejects_Lit) (simp_all add: is_space_def)
  with assms show ?thesis
    by (simp add: and_kw_def scan_and_def seq_Lit seq_Plus Let_def del: rmatch.simps)
qed

lemma rejects_span: "\<not> p CHR ''t'' \<Longrightarrow> rejects (foldr Seq (span i) r) p"
  by (simp add: span_def rejects_Lit)

lemma rejects_span_space [simp]: "rejects (foldr Seq (span i) r) (in_class Space)"
  by (rule rejects_span) (simp add: is_space_def)

lemma rejects_not_space [simp]: "rejects (Seq (Lit ''not'') r) (in_class Space)"
  by (rule rejects_Lit) (simp_all add: is_space_def)

subsection \<open>Truncation\<close>

lemma runs_parts:
  "s' \<in> set (runs p s) \<Longrightarrow> \<exists>m. s = m @ s' \<and> m \<noteq> [] \<and> (\<forall>x\<in>set m. p x)"
proof (induction s)
  case Nil
  then show ?case by simp
next
  case (Cons x xs)
  from Cons.prems have px: "p x" and disj: "s' \<in> set (runs p xs) \<or> s' = xs"
    by (auto split: if_splits)
  from disj show ?case
  proof
    assume "s' \<in> set (runs p xs)"
    with Cons.IH obtain m where "xs = m @ s'" "\<forall>x\<in>set m. p x" by blast
    with px have "x # xs = (x # m) @ s' \<and> x # m \<noteq> [] \<and> (\<forall>y\<in>set (x # m). p y)" by simp
    then show ?thesis by blast
  next
    assume "s' = xs"
    with px have "x # xs = [x] @ s' \<and> [x] \<noteq> [] \<and> (\<forall>y\<in>set [x]. p y)" by simp
    then show ?thesis by blast
  qed
qed

lemma runs_shorter: "s' \<in> set (runs p s) \<Longrightarrow> length s' < length s"
  using runs_parts[of s' p s] by auto

lemma rmatch_suffix: "(s', g') \<in> set (rmatch r (s, g)) \<Longrightarrow> suffix s' s"
proof (induction r arbitrary: s g s' g')
  case Eps
  then show ?case by simp
next
  case (Lit l)
  then show ?case by (auto split: if_splits simp: suffix_drop)
next
  case (Plus c)
  then show ?case using runs_parts[of s' "in_class c" s] by (auto simp: suffix_def)
next
  case (Star c)
  then show ?case using runs_parts[of s' "in_class c" s] by (auto simp: suffix_def)
next
  case (Seq a b)
  from Seq.prems obtain s1 g1 where "(s1, g1) \<in> set (rmatch a (s, g))"
    and "(s', g') \<in> set (rmatch b (s1, g1))" by auto
  with Seq.IH show ?case by (meson suffix_order.trans)
next
  case (Group i r)
  then show ?case by auto
next
  case (Opt r)
  then show ?case by auto
next
  case (NotAhead r)
  then show ?case by (auto split: if_splits)
qed

lemma rmatch_shorter: "(s', g') \<in> set (rmatch r (s, g)) \<Longrightarrow> length s' \<le> length s"
  using rmatch_suffix[of s' g' r s g] by (auto simp: suffix_def)

lemma runs_trunc:
  "filter (\<lambda>s'. length t \<le> length s') (runs p (m @ t)) = map (\<lambda>s'. s' @ t) (runs p m)"
proof (induction m)
  case Nil
  have "\<forall>s'\<in>set (runs p t). \<not> length t \<le> length s'"
    by (auto dest!: runs_shorter)
  then show ?case by simp
next
  case (Cons x xs)
  then show ?case by simp
qed

lemma concat_map_filter:
  "(\<And>x. x \<in> set xs \<Longrightarrow> \<not> q x \<Longrightarrow> f x = []) \<Longrightarrow>
     concat (map f xs) = concat (map f (filter q xs))"
  by (induction xs) auto

lemma filter_reaches_map:
  "(\<And>st. fst (f st) = fst st) \<Longrightarrow>
     filter (reaches t) (map f xs) = map f (filter (reaches t) xs)"
  by (induction xs) (auto simp: reaches_def)

lemma trunc:
  "la_free r \<Longrightarrow>
     filter (reaches t) (rmatch r (m @ t, g)) = map (extend_rest t) (rmatch r (m, g))"
proof (induction r arbitrary: m g)
  case Eps
  show ?case by (simp add: reaches_def extend_rest_def)
next
  case (Lit l)
  show ?case
  proof (cases "prefix l m")
    case True
    then have "prefix l (m @ t)" and "length l \<le> length m"
      by (auto simp: prefix_def)
    with True show ?thesis by (simp add: reaches_def extend_rest_def)
  next
    case False
    show ?thesis
    proof (cases "prefix l (m @ t)")
      case True
      with False obtain us where "l = m @ us" and "us \<noteq> []"
        by (auto simp: prefix_append)
      with False True show ?thesis
        by (cases us) (auto simp: reaches_def extend_rest_def dest: prefix_length_le)
    next
      case F2: False
      with False show ?thesis by simp
    qed
  qed
next
  case (Plus c)
  show ?case
    by (simp add: filter_map comp_def reaches_def extend_rest_def runs_trunc)
next
  case (Star c)
  show ?case
    by (simp add: filter_map comp_def reaches_def extend_rest_def runs_trunc)
next
  case (Seq a b)
  then have la: "la_free a" and lb: "la_free b" by simp_all
  let ?f = "\<lambda>st. filter (reaches t) (rmatch b st)"
  have drop_short: "?f st = []" if "st \<in> set (rmatch a (m @ t, g))" "\<not> reaches t st" for st
  proof -
    have "\<not> reaches t st'" if "st' \<in> set (rmatch b st)" for st'
      using that rmatch_shorter[of "fst st'" "snd st'" b "fst st" "snd st"] \<open>\<not> reaches t st\<close>
      by (auto simp: reaches_def)
    then show ?thesis by (simp add: filter_empty_conv)
  qed
  have "filter (reaches t) (rmatch (Seq a b) (m @ t, g))
        = concat (map ?f (rmatch a (m @ t, g)))"
    by (simp add: filter_concat comp_def)
  also have "\<dots> = concat (map ?f (filter (reaches t) (rmatch a (m @ t, g))))"
    by (rule concat_map_filter) (rule drop_short)
  also have "\<dots> = concat (map ?f (map (extend_rest t) (rmatch a (m, g))))"
    by (simp only: Seq.IH(1)[OF la])
  also have "\<dots> = concat (map (\<lambda>st. map (extend_rest t) (rmatch b st)) (rmatch a (m, g)))"
  proof -
    have "?f (extend_rest t st) = map (extend_rest t) (rmatch b st)" for st
      using Seq.IH(2)[OF lb, of "fst st" "snd st"] by (simp add: extend_rest_def)
    then show ?thesis by (simp add: comp_def)
  qed
  also have "\<dots> = map (extend_rest t) (rmatch (Seq a b) (m, g))"
    by (simp add: map_concat comp_def)
  finally show ?case .
next
  case (Group i r)
  then have lr: "la_free r" by simp
  let ?cap = "\<lambda>s. \<lambda>(s', g'). (s', (i, take (length s - length s') s) # g')"
  have "filter (reaches t) (map (?cap (m @ t)) (rmatch r (m @ t, g)))
        = map (?cap (m @ t)) (filter (reaches t) (rmatch r (m @ t, g)))"
    by (rule filter_reaches_map) (simp add: case_prod_beta)
  also have "\<dots> = map (?cap (m @ t)) (map (extend_rest t) (rmatch r (m, g)))"
    by (simp only: Group.IH[OF lr])
  also have "\<dots> = map (extend_rest t) (map (?cap m) (rmatch r (m, g)))"
    by (simp add: comp_def extend_rest_def case_prod_beta)
  finally show ?case by simp
next
  case (Opt r)
  then show ?case by (simp add: reaches_def extend_rest_def)
next
  case (NotAhead r)
  then show ?case by simp
qed

lemma trunc_fail: "la_free r \<Longrightarrow> rmatch r (m @ t, g) = [] \<Longrightarrow> rmatch r (m, g) = []"
  using trunc[of r t m g] by simp

lemma trunc_first:
  assumes "la_free r" and "rmatch r (m @ t, g) = (t, g') # rest"
  shows "\<exists>rest'. rmatch r (m, g) = ([], g') # rest'"
proof -
  from assms trunc[of r t m g]
  have "map (extend_rest t) (rmatch r (m, g)) = (t, g') # filter (reaches t) rest"
    by (simp add: reaches_def)
  then show ?thesis by (cases "rmatch r (m, g)") (auto simp: extend_rest_def)
qed

subsection \<open>Sequences\<close>

lemma concat_bind:
  "concat (map f (concat (map h xs))) = concat (map (\<lambda>x. concat (map f (h x))) xs)"
  by (induction xs) auto

lemma rmatch_foldr:
  "rmatch (foldr Seq xs r) st = concat (map (rmatch r) (rmatch (foldr Seq xs Eps) st))"
proof (induction xs arbitrary: st)
  case Nil
  show ?case by simp
next
  case (Cons x xs)
  have "rmatch (foldr Seq (x # xs) r) st
        = concat (map (\<lambda>st'. rmatch (foldr Seq xs r) st') (rmatch x st))"
    by simp
  also have "\<dots> = concat (map (\<lambda>st'. concat (map (rmatch r) (rmatch (foldr Seq xs Eps) st')))
                        (rmatch x st))"
    using Cons.IH by simp
  also have "\<dots> = concat (map (rmatch r) (rmatch (foldr Seq (x # xs) Eps) st))"
    by (simp add: concat_bind)
  finally show ?case .
qed

lemma concat_map_if: "concat (map (\<lambda>x. if q x then [x] else []) xs) = filter q xs"
  by (induction xs) auto

lemma pattern4a_body:
  "rmatch pattern4a st = filter (\<lambda>st'. rmatch (Lit ''.where'') st' = []) (rmatch body4a st)"
proof -
  have "pattern4a = foldr Seq (span 1 @ [where_group 2] @ and_kw @ span 3)
                      (Seq (NotAhead (Lit ''.where'')) Eps)"
    by (simp add: pattern4a_def seq_def)
  then have "rmatch pattern4a st
             = concat (map (rmatch (Seq (NotAhead (Lit ''.where'')) Eps)) (rmatch body4a st))"
    using rmatch_foldr[of "span 1 @ [where_group 2] @ and_kw @ span 3"
                          "Seq (NotAhead (Lit ''.where'')) Eps" st]
    by (simp add: body4a_def seq_def)
  also have "rmatch (Seq (NotAhead (Lit ''.where'')) Eps)
             = (\<lambda>st'. if rmatch (Lit ''.where'') st' = [] then [st'] else [])"
    by (rule ext) (simp del: rmatch.simps(2))
  also have "concat (map (\<lambda>st'. if rmatch (Lit ''.where'') st' = [] then [st'] else [])
                      (rmatch body4a st))
             = filter (\<lambda>st'. rmatch (Lit ''.where'') st' = []) (rmatch body4a st)"
    by (rule concat_map_if)
  finally show ?thesis .
qed

subsection \<open>Where a match ends\<close>

lemma consumes_nothing_same: "consumes_nothing r \<Longrightarrow> st' \<in> set (rmatch r st) \<Longrightarrow> st' = st"
  apply (induction r arbitrary: st st')
         apply (auto split: if_splits)
   apply blast+
  done

lemma tight_end_last:
  "tight_end r \<Longrightarrow> (s', g') \<in> set (rmatch r (s, g)) \<Longrightarrow>
     \<exists>m. s = m @ s' \<and> m \<noteq> [] \<and> \<not> is_space (last m)"
proof (induction r arbitrary: s g s' g')
  case (Lit l)
  then show ?case by (auto split: if_splits simp: prefix_def)
next
  case (Plus c)
  from Plus.prems obtain m where "s = m @ s'" "m \<noteq> []" "\<forall>x\<in>set m. in_class c x"
    using runs_parts[of s' "in_class c" s] by auto
  with Plus.prems show ?case by (metis last_in_set tight_end.simps(2))
next
  case (Seq a b)
  from Seq.prems(2) obtain s1 g1 where a: "(s1, g1) \<in> set (rmatch a (s, g))"
    and b: "(s', g') \<in> set (rmatch b (s1, g1))" by auto
  from Seq.prems(1) consider "tight_end b" | "consumes_nothing b" "tight_end a" by auto
  then show ?case
  proof cases
    case 1
    from Seq.IH(2)[OF 1 b] obtain m2 where m2: "s1 = m2 @ s'" "m2 \<noteq> []" "\<not> is_space (last m2)"
      by blast
    from rmatch_suffix[OF a] obtain m1 where "s = m1 @ s1" by (auto simp: suffix_def)
    with m2 have "s = (m1 @ m2) @ s' \<and> m1 @ m2 \<noteq> [] \<and> \<not> is_space (last (m1 @ m2))" by simp
    then show ?thesis by blast
  next
    case 2
    from consumes_nothing_same[OF 2(1) b] have "s' = s1" by simp
    with Seq.IH(1)[OF 2(2) a] show ?thesis by simp
  qed
next
  case (Group i r)
  then show ?case by auto
qed simp_all

lemma strip_id:
  assumes "s \<noteq> []" "\<not> is_space (hd s)" "\<not> is_space (last s)"
  shows "strip s = s"
proof -
  have "dropWhile is_space s = s"
    using assms by (simp add: dropWhile_eq_self_iff)
  moreover have "dropWhile is_space (rev s) = rev s"
    using assms by (simp add: dropWhile_eq_self_iff hd_rev)
  ultimately show ?thesis by (simp add: strip_def)
qed

lemma strip_keeps_head:
  assumes "\<not> is_space x"
  shows "\<exists>t. strip (x # xs) = x # t"
proof -
  have "\<exists>ys. dropWhile is_space (zs @ [x]) = ys @ [x]" for zs
    using assms by (induction zs) auto
  then obtain ys where "dropWhile is_space (rev xs @ [x]) = ys @ [x]" by blast
  with assms show ?thesis by (simp add: strip_def)
qed

subsection \<open>The cascade\<close>

lemma convert_first_some:
  "convert_condition s =
     (case first_some recognizers (strip s) of
        Some out \<Rightarrow> out
      | None \<Rightarrow> manual_review (strip s))"
  by (simp add: convert_condition_def recognizers_def Let_def split: option.splits)

lemma first_some_nth:
  "i < length fs \<Longrightarrow> (\<forall>j<i. (fs ! j) x = None) \<Longrightarrow> (fs ! i) x = Some y \<Longrightarrow>
     first_some fs x = Some y"
proof (induction fs arbitrary: i)
  case Nil
  then show ?case by simp
next
  case (Cons f fs)
  show ?case
  proof (cases i)
    case 0
    with Cons.prems show ?thesis by simp
  next
    case (Suc k)
    with Cons.prems have "f x = None" by auto
    moreover from Suc Cons.prems have "first_some fs x = Some y"
      by (intro Cons.IH[of k]) auto
    ultimately show ?thesis by simp
  qed
qed

lemma first_some_none:
  "list_all (\<lambda>f. f x = None) fs \<Longrightarrow> first_some fs x = None"
  by (induction fs) auto

lemmas recognizer_defs =
  recognizer1_def recognizer2_def recognizer3_def recognizer4a_def recognizer4b_def
  recognizer5_def recognizer6_def recognizer7_def recognizer8_def recognizer9_def

lemma recognizers_same:
  "list_all2 (\<lambda>r p. \<forall>c m. re_match p m = re_match p c \<longrightarrow> r m = r c) recognizers patterns"
  by (simp add: recognizers_def patterns_def recognizer_defs)

lemma recognizers_none:
  "list_all2 (\<lambda>r p. \<forall>c. (r c = None) = (re_match p c = None)) recognizers patterns"
  by (simp add: recognizers_def patterns_def recognizer_defs)

lemma rparen_not_space: "\<not> is_space CHR '')''"
  by (simp add: is_space_def)

lemma re_match_None_iff: "re_match p c = None \<longleftrightarrow> rmatch p (c, []) = []"
  by (auto simp: re_match_def split: list.splits)

lemma digit_not_space: "is_digit x \<Longrightarrow> \<not> is_space x"
  by (auto simp: is_digit_def is_space_def)

lemma patterns_tight: "list_all tight_end patterns"
  by (simp add: patterns_def pattern1_def pattern2_def pattern3_def pattern4a_def
      pattern4b_def pattern5_def pattern6_def pattern7_def pattern8_def pattern9_def
      span_def count_span_def where_group_def and_kw_def seq_def digit_not_space
      rparen_not_space)

lemmas pattern_defs =
  pattern1_def pattern2_def pattern3_def pattern4a_def pattern4b_def
  pattern5_def pattern6_def pattern7_def pattern8_def pattern9_def

lemma patterns_la_free: "i < length patterns \<Longrightarrow> i \<noteq> 3 \<Longrightarrow> la_free (patterns ! i)"
  by (simp add: patterns_def pattern_defs span_def count_span_def where_group_def and_kw_def
      seq_def nth_Cons eval_nat_numeral split: nat.splits)

lemma has_trace: "prefix ''trace.has('' s \<Longrightarrow> prefix ''trace.'' s"
  by (auto simp: prefix_def)

lemma count_trace: "prefix ''trace.count('' s \<Longrightarrow> prefix ''trace.'' s"
  by (auto simp: prefix_def)

lemma patterns_trace:
  "list_all (\<lambda>p. \<forall>s g. rmatch p (s, g) \<noteq> [] \<longrightarrow> prefix ''trace.'' s) patterns"
  by (auto simp: patterns_def pattern_defs span_def count_span_def seq_def seq_Lit
      simp del: rmatch.simps split: if_splits dest: has_trace count_trace)

subsection \<open>Scanners\<close>

lemma scan_span_shorter: "scan_span kw s = Some (a, s') \<Longrightarrow> length s' < length s"
proof -
  assume a: "scan_span kw s = Some (a, s')"
  let ?d = "dropWhile (in_class (NoneOf '')'')) (drop (length kw) s)"
  from a have s': "s' = drop 1 ?d" and "prefix '')'' ?d"
    by (auto simp: scan_span_def Let_def split: if_splits)
  then obtain z where z: "?d = CHR '')'' # z" by (auto simp: prefix_def)
  have "length ?d \<le> length s"
    using length_dropWhile_le[of "in_class (NoneOf '')'')" "drop (length kw) s"] by simp
  with s' z show ?thesis by (simp del: dropWhile_eq_Cons_conv)
qed

lemma scan_span_prefix: "scan_span kw s = Some x \<Longrightarrow> prefix kw s"
  by (auto simp: scan_span_def split: if_splits)

lemma scan_where_shorter: "scan_where s = Some (w, s') \<Longrightarrow> length s' < length s"
  by (auto simp: scan_where_def split: option.splits dest: scan_span_shorter)

lemma scan_where_prefix: "scan_where s = Some x \<Longrightarrow> prefix ''.where('' s"
  by (auto simp: scan_where_def split: option.splits dest: scan_span_prefix)

lemma scan_and_space: "scan_and s = Some x \<Longrightarrow> \<exists>y t. s = y # t \<and> is_space y"
  by (cases s) (auto simp: scan_and_def split: if_splits)

lemma scan_and_shorter: "scan_and s = Some s' \<Longrightarrow> length s' < length s"
proof -
  assume a: "scan_and s = Some s'"
  let ?d = "dropWhile (in_class Space) s"
  let ?e = "drop (length ''and'') ?d"
  from a have s': "s' = dropWhile (in_class Space) ?e" and "prefix ''and'' ?d"
    by (auto simp: scan_and_def Let_def split: if_splits)
  then have "length ?e < length ?d" by (auto simp: prefix_def)
  moreover have "length ?d \<le> length s" by (rule length_dropWhile_le)
  moreover have "length s' \<le> length ?e" unfolding s' by (rule length_dropWhile_le)
  ultimately show ?thesis by simp
qed

lemma where_not_and: "scan_where s = Some x \<Longrightarrow> scan_and s = None"
proof (rule ccontr)
  assume w: "scan_where s = Some x" and "scan_and s \<noteq> None"
  then obtain y t where "s = y # t" "is_space y" using scan_and_space by fastforce
  with scan_where_prefix[OF w] show False by (auto simp: is_space_def)
qed

lemma where_not_and': "scan_and s = Some y \<Longrightarrow> scan_where s = None"
  by (cases "scan_where s") (auto dest: where_not_and)

lemma has_not_not: "scan_span ''trace.has('' s = Some x \<Longrightarrow> \<not> prefix ''not'' s"
  by (auto dest!: scan_span_prefix simp: prefix_def)

lemma has_not_count: "scan_span ''trace.has('' s = Some x \<Longrightarrow> scan_span ''trace.count('' s = None"
proof (rule ccontr)
  assume "scan_span ''trace.has('' s = Some x" "scan_span ''trace.count('' s \<noteq> None"
  then have "prefix ''trace.has('' s" "prefix ''trace.count('' s"
    by (auto dest: scan_span_prefix)
  then show False by (auto simp: prefix_def)
qed

lemmas steps_simps = span_step count_step where_step and_step seq_Lit seq_Plus seq_Opt

lemma p3_excludes:
  assumes "rmatch pattern3 (s, []) \<noteq> []"
  shows "rmatch pattern1 (s, []) = [] \<and> rmatch pattern2 (s, []) = []"
  using assms
  by (auto simp: pattern1_def pattern2_def pattern3_def seq_def steps_simps
      simp del: rmatch.simps(2-8) split: option.splits if_splits
      dest: where_not_and where_not_and' has_not_not)

lemma body4a_elem:
  assumes "(s', g') \<in> set (rmatch body4a (c, g0))"
  shows "\<exists>a s1 w s2 s3 b. scan_span ''trace.has('' c = Some (a, s1) \<and> scan_where s1 = Some (w, s2)
           \<and> scan_and s2 = Some s3 \<and> scan_span ''trace.has('' s3 = Some (b, s')"
  using assms
  apply (auto simp: body4a_def seq_def steps_simps
      simp del: rmatch.simps(2-8) split: option.splits if_splits)
  apply metis
  done

lemma body4a_single: "length (rmatch body4a (c, g0)) \<le> 1"
  by (auto simp: body4a_def seq_def steps_simps
      simp del: rmatch.simps(2-8) split: option.splits if_splits)

lemma p4b_elem:
  assumes "rmatch pattern4b (c, g0) \<noteq> []"
  shows "\<exists>a s1 s2. scan_span ''trace.has('' c = Some (a, s1) \<and> scan_and s1 = Some s2"
  using assms
  by (auto simp: pattern4b_def seq_def steps_simps
      simp del: rmatch.simps(2-8) split: option.splits if_splits)

lemma p5_elem:
  assumes "rmatch pattern5 (c, g0) \<noteq> []"
  shows "\<exists>a s1 s2. scan_span ''trace.has('' c = Some (a, s1) \<and> scan_and s1 = Some s2"
  using assms
  by (auto simp: pattern5_def seq_def steps_simps
      simp del: rmatch.simps(2-8) split: option.splits if_splits)

lemma p6_elem:
  assumes "rmatch pattern6 (c, g0) \<noteq> []"
  shows "\<exists>x. scan_span ''trace.count('' c = Some x"
  using assms
  by (auto simp: pattern6_def seq_def count_step
      simp del: rmatch.simps(2-8) split: option.splits if_splits)

lemma p7_elem:
  assumes "rmatch pattern7 (c, g0) \<noteq> []"
  shows "\<exists>x. scan_span ''trace.count('' c = Some x"
  using assms
  by (auto simp: pattern7_def seq_def count_step
      simp del: rmatch.simps(2-8) split: option.splits if_splits)

lemma p8_elem:
  assumes "rmatch pattern8 (c, g0) = (r, g) # rest"
  shows "\<exists>a s1 w. scan_span ''trace.has('' c = Some (a, s1) \<and> scan_where s1 = Some (w, r)"
  using assms
  by (auto simp: pattern8_def seq_def steps_simps
      simp del: rmatch.simps(2-8) split: option.splits if_splits)

lemma p9_elem:
  assumes "rmatch pattern9 (c, g0) = (r, g) # rest"
  shows "\<exists>a. scan_span ''trace.has('' c = Some (a, r)"
  using assms
  by (auto simp: pattern9_def seq_def steps_simps
      simp del: rmatch.simps(2-8) split: option.splits if_splits)

lemma body4a_la_free: "la_free body4a"
  by (simp add: body4a_def span_def where_group_def and_kw_def seq_def)

lemma p4a_trunc_first:
  assumes "rmatch pattern4a (m @ r, []) = (r, g) # rest"
  shows "rmatch pattern4a (m, []) = [([], g)]"
proof -
  let ?Q = "\<lambda>st'. rmatch (Lit ''.where'') st' = []"
  from assms have f: "filter ?Q (rmatch body4a (m @ r, [])) = (r, g) # rest"
    by (simp only: pattern4a_body)
  have "length (rmatch body4a (m @ r, [])) \<le> 1" by (rule body4a_single)
  then obtain x where "rmatch body4a (m @ r, []) = [] \<or> rmatch body4a (m @ r, []) = [x]"
    by (cases "rmatch body4a (m @ r, [])") auto
  with f have b: "rmatch body4a (m @ r, []) = [(r, g)]"
    by (auto split: if_splits simp del: rmatch.simps)
  from trunc[OF body4a_la_free, of r m "[]"] b
  have "map (extend_rest r) (rmatch body4a (m, [])) = [(r, g)]" by (simp add: reaches_def)
  then have "rmatch body4a (m, []) = [([], g)]"
    by (cases "rmatch body4a (m, [])") (auto simp: extend_rest_def)
  then show ?thesis by (simp add: pattern4a_body)
qed

lemma p4a_fail_trunc:
  assumes ne: "rmatch pattern4a (m, []) \<noteq> []"
      and P: "P \<in> {pattern4b, pattern5, pattern6, pattern7, pattern8, pattern9}"
      and R: "rmatch P (m @ r, []) = (r, g) # rest"
  shows False
proof -
  from ne obtain st where "st \<in> set (rmatch body4a (m, []))"
    by (auto simp only: pattern4a_body filter_empty_conv)
  then have "extend_rest r st \<in> set (map (extend_rest r) (rmatch body4a (m, [])))" by simp
  then have "extend_rest r st \<in> set (rmatch body4a (m @ r, []))"
    using trunc[OF body4a_la_free, of r m "[]"] by (metis filter_is_subset subsetD)
  then have "(fst st @ r, snd st) \<in> set (rmatch body4a (m @ r, []))" by (simp add: extend_rest_def)
  from body4a_elem[OF this] obtain a s1 w s2 s3 b where
    h1: "scan_span ''trace.has('' (m @ r) = Some (a, s1)" and
    h2: "scan_where s1 = Some (w, s2)" and
    h3: "scan_and s2 = Some s3" and
    h4: "scan_span ''trace.has('' s3 = Some (b, fst st @ r)" by blast
  from scan_and_shorter[OF h3] scan_span_shorter[OF h4]
  have l2: "length r < length s2" by simp
  from scan_where_shorter[OF h2] l2 have l1: "length r < length s1" by simp
  from R have Rne: "rmatch P (m @ r, []) \<noteq> []" by simp
  from P consider "P = pattern4b" | "P = pattern5" | "P = pattern6" | "P = pattern7"
    | "P = pattern8" | "P = pattern9" by auto
  then show False
  proof cases
    case 1
    with p4b_elem[of "m @ r" "[]"] Rne h1 h2 show False by (auto dest: where_not_and)
  next
    case 2
    with p5_elem[of "m @ r" "[]"] Rne h1 h2 show False by (auto dest: where_not_and)
  next
    case 3
    with p6_elem[of "m @ r" "[]"] Rne h1 show False by (auto dest: has_not_count)
  next
    case 4
    with p7_elem[of "m @ r" "[]"] Rne h1 show False by (auto dest: has_not_count)
  next
    case 5
    with p8_elem[of "m @ r" "[]" r g rest] R h1 h2 l2 show False by auto
  next
    case 6
    with p9_elem[of "m @ r" "[]" r g rest] R h1 l1 show False by auto
  qed
qed

lemma length_patterns [simp]: "length patterns = 10"
  by (simp add: patterns_def)

lemma length_recognizers [simp]: "length recognizers = 10"
  by (simp add: recognizers_def)

lemma patterns_3: "patterns ! 3 = pattern4a"
  by (simp add: patterns_def)

lemma patterns_after_4a:
  assumes "3 < i" "i < length patterns"
  shows "patterns ! i \<in> {pattern4b, pattern5, pattern6, pattern7, pattern8, pattern9}"
proof -
  from assms have "i = 4 \<or> i = 5 \<or> i = 6 \<or> i = 7 \<or> i = 8 \<or> i = 9" by auto
  then show ?thesis by (auto simp: patterns_def)
qed

lemma prefix_translation:
  assumes i: "i < length patterns"
      and first: "\<forall>j<i. re_match (patterns ! j) c = None"
      and m: "group0 (patterns ! i) c = Some m"
  shows "prefix m c \<and> strip m = m
         \<and> first_some recognizers m = first_some recognizers c
         \<and> first_some recognizers c = (recognizers ! i) c
         \<and> (recognizers ! i) c \<noteq> None
         \<and> (recognizers ! i) m = (recognizers ! i) c"
proof -
  from m obtain r g rest where R: "rmatch (patterns ! i) (c, []) = (r, g) # rest"
    and mdef: "m = take (length c - length r) c"
    by (auto simp: group0_def split: list.splits)
  from patterns_tight i have "tight_end (patterns ! i)" by (simp add: list_all_length)
  moreover from R have "(r, g) \<in> set (rmatch (patterns ! i) (c, []))" by simp
  ultimately obtain m' where "c = m' @ r" "m' \<noteq> []" "\<not> is_space (last m')"
    using tight_end_last by blast
  with mdef have c: "c = m @ r" and mne: "m \<noteq> []" and mlast: "\<not> is_space (last m)" by simp_all
  have A: "\<exists>rest'. rmatch (patterns ! i) (m, []) = ([], g) # rest'"
  proof (cases "i = 3")
    case True
    with R c p4a_trunc_first[of m r g rest] show ?thesis by (simp add: patterns_3)
  next
    case False
    with i have "la_free (patterns ! i)" by (rule patterns_la_free)
    from trunc_first[OF this] R c show ?thesis by simp
  qed
  have B: "rmatch (patterns ! j) (m, []) = []" if j: "j < i" for j
  proof -
    from first j have cj: "rmatch (patterns ! j) (m @ r, []) = []"
      unfolding c by (simp add: re_match_None_iff)
    show ?thesis
    proof (cases "j = 3")
      case True
      with j i have "patterns ! i \<in> {pattern4b, pattern5, pattern6, pattern7, pattern8, pattern9}"
        by (intro patterns_after_4a) auto
      with p4a_fail_trunc[of m "patterns ! i" r g rest] R c True show ?thesis
        by (auto simp: patterns_3)
    next
      case False
      with j i have "la_free (patterns ! j)" by (intro patterns_la_free) auto
      from trunc_fail[OF this cj] show ?thesis .
    qed
  qed
  from A have mi: "re_match (patterns ! i) m = Some g" by (auto simp: re_match_def)
  from R have ci: "re_match (patterns ! i) c = Some g" by (simp add: re_match_def)
  from patterns_trace i
  have "\<forall>s g. rmatch (patterns ! i) (s, g) \<noteq> [] \<longrightarrow> prefix ''trace.'' s"
    by (simp add: list_all_length)
  moreover from A have "rmatch (patterns ! i) (m, []) \<noteq> []" by auto
  ultimately have "prefix ''trace.'' m" by blast
  then have "\<not> is_space (hd m)" by (auto simp: prefix_def is_space_def)
  from strip_id[OF mne this mlast] have strip: "strip m = m" .
  have none_m: "\<forall>j<i. (recognizers ! j) m = None"
    using recognizers_none i B by (auto simp: list_all2_conv_all_nth re_match_def)
  have none_c: "\<forall>j<i. (recognizers ! j) c = None"
    using recognizers_none i first by (auto simp: list_all2_conv_all_nth)
  have same: "(recognizers ! i) m = (recognizers ! i) c"
    using recognizers_same i mi ci by (auto simp: list_all2_conv_all_nth)
  have some: "(recognizers ! i) c \<noteq> None"
    using recognizers_none i ci by (auto simp: list_all2_conv_all_nth)
  then obtain out where out: "(recognizers ! i) c = Some out" by auto
  from first_some_nth[of i recognizers c out] i none_c out
  have fc: "first_some recognizers c = Some out" by simp
  from first_some_nth[of i recognizers m out] i none_m out same
  have fm: "first_some recognizers m = Some out" by simp
  from c strip fc fm out same show ?thesis by (simp add: prefix_def)
qed

subsection \<open>Text that no pattern matches\<close>

lemma no_trace_none:
  assumes "\<not> prefix ''trace.'' c"
  shows "list_all (\<lambda>r. r c = None) recognizers"
proof -
  have "re_match p c = None" if "p \<in> set patterns" for p
    using patterns_trace that assms by (auto simp: list_all_iff re_match_None_iff)
  then have "\<forall>j<10. re_match (patterns ! j) c = None" by simp
  with recognizers_none show ?thesis
    by (auto simp: list_all2_conv_all_nth list_all_length)
qed

lemma no_match_fallback:
  assumes "list_all (\<lambda>r. r (strip s) = None) recognizers"
  shows "convert_condition s = manual_review (strip s)"
  using first_some_none[OF assms] by (simp add: convert_first_some)

lemma convert_output_head:
  "prefix ''when { '' (convert_condition s) \<or> prefix ''# TODO: '' (convert_condition s)"
  by (simp add: convert_condition_def Let_def recognizer_defs manual_review_def
      split: option.splits)

lemma output_not_trace: "\<not> prefix ''trace.'' (strip (convert_condition s))"
proof -
  from convert_output_head[of s]
  obtain x t where xt: "convert_condition s = x # t" and x: "x = CHR ''w'' \<or> x = CHR ''#''"
    by (auto simp: prefix_def)
  then have "\<not> is_space x" by (auto simp: is_space_def)
  from strip_keeps_head[OF this, of t] xt obtain t' where "strip (convert_condition s) = x # t'"
    by auto
  with x show ?thesis by auto
qed

section \<open>The batch converter keeps the frame\<close>

lemma map_of_dict_set: "map_of (dict_set k v kvs) k = Some v"
  by (induction kvs) auto

lemma same_fields_refl: "same_fields_except k kvs kvs"
  by (simp add: same_fields_except_def list_all2_same case_prod_beta)

lemma same_fields_trans:
  assumes "same_fields_except k xs ys" and "same_fields_except k ys zs"
  shows "same_fields_except k xs zs"
proof -
  let ?P = "\<lambda>(k1, v1) (k2, v2). k2 = k1 \<and> (k1 \<noteq> k \<longrightarrow> v2 = v1)"
  from assms have l: "length xs = length ys" "length ys = length zs"
    and p: "\<forall>i<length xs. ?P (xs ! i) (ys ! i)" "\<forall>i<length ys. ?P (ys ! i) (zs ! i)"
    by (auto simp: same_fields_except_def list_all2_conv_all_nth)
  have "\<forall>i<length xs. ?P (xs ! i) (zs ! i)"
  proof (intro allI impI)
    fix i
    assume "i < length xs"
    with l p have "?P (xs ! i) (ys ! i)" "?P (ys ! i) (zs ! i)" by auto
    then show "?P (xs ! i) (zs ! i)" by (auto simp: case_prod_beta)
  qed
  with l show ?thesis by (simp add: same_fields_except_def list_all2_conv_all_nth)
qed

lemma dict_set_frame: "same_fields_except k kvs (dict_set k v kvs) \<or> map_of kvs k = None"
proof (induction kvs)
  case Nil
  show ?case by simp
next
  case (Cons kv kvs)
  obtain k' v' where kv: "kv = (k', v')" by (cases kv)
  show ?case
  proof (cases "k = k'")
    case True
    with kv same_fields_refl[of k kvs] show ?thesis
      by (simp add: same_fields_except_def)
  next
    case False
    with kv Cons.IH show ?thesis
      by (auto simp: same_fields_except_def)
  qed
qed

lemma object_frame_refl: "object_frame ob ob"
  by (cases ob) (simp_all add: object_frame_def same_fields_refl)

lemma object_frame_trans:
  assumes "object_frame x y" and "object_frame y z"
  shows "object_frame x z"
proof (cases y)
  case (ODict kvs)
  with assms obtain xs zs where "x = ODict xs" "z = ODict zs"
    by (cases x; cases z) (auto simp: object_frame_def)
  with ODict assms same_fields_trans[of "''condition''" xs kvs zs] show ?thesis
    by (simp add: object_frame_def)
next
  case (OList vs)
  with assms have "x = OList vs" "z = OList vs"
    by (cases x; cases z; auto simp: object_frame_def)+
  then show ?thesis by (simp add: object_frame_refl)
qed

lemma store_frame_refl: "store_frame st st"
  by (simp add: store_frame_def list_all2_same object_frame_refl)

lemma store_frame_trans: "store_frame x y \<Longrightarrow> store_frame y z \<Longrightarrow> store_frame x z"
  using list_all2_trans[of object_frame object_frame object_frame x y z] object_frame_trans
  unfolding store_frame_def by blast

lemma store_frame_length: "store_frame st st' \<Longrightarrow> length st' = length st"
  by (simp add: store_frame_def list_all2_lengthD)

lemma store_frame_update:
  assumes "object_frame (st ! a) ob"
  shows "store_frame st (st[a := ob])"
proof -
  have "object_frame (st ! i) (st[a := ob] ! i)" if "i < length st" for i
  proof (cases "i = a")
    case True
    with that assms show ?thesis by simp
  next
    case False
    then show ?thesis by (simp add: object_frame_refl)
  qed
  then show ?thesis by (simp add: store_frame_def list_all2_conv_all_nth)
qed

lemma convert_rule_cases:
  assumes "convert_rule st rule = Inr (st', c, n)"
  shows "st' = st
         \<or> (\<exists>b kvs old new. rule = VRef b \<and> b < length st \<and> st ! b = ODict kvs
               \<and> map_of kvs ''condition'' = Some (VStr old)
               \<and> st' = st[b := ODict (dict_set ''condition'' (VStr new) kvs)])"
  using assms
  by (auto simp: convert_rule_def deref_def
      split: val.splits option.splits obj.splits if_splits prod.splits)

lemma convert_rule_frame:
  assumes "convert_rule st rule = Inr (st', c, n)"
  shows "store_frame st st' \<and> (\<forall>a<length st. st' ! a \<noteq> st ! a \<longrightarrow> rule = VRef a)"
proof -
  from convert_rule_cases[OF assms] show ?thesis
  proof
    assume "st' = st"
    then show ?thesis by (simp add: store_frame_refl)
  next
    assume "\<exists>b kvs old new. rule = VRef b \<and> b < length st \<and> st ! b = ODict kvs
               \<and> map_of kvs ''condition'' = Some (VStr old)
               \<and> st' = st[b := ODict (dict_set ''condition'' (VStr new) kvs)]"
    then obtain b kvs old new where r: "rule = VRef b" and b: "st ! b = ODict kvs"
      and m: "map_of kvs ''condition'' = Some (VStr old)"
      and st': "st' = st[b := ODict (dict_set ''condition'' (VStr new) kvs)]" by blast
    from m dict_set_frame[of "''condition''" kvs "VStr new"]
    have "same_fields_except ''condition'' kvs (dict_set ''condition'' (VStr new) kvs)"
      by simp
    with b have "object_frame (st ! b) (ODict (dict_set ''condition'' (VStr new) kvs))"
      by (simp add: object_frame_def)
    from store_frame_update[OF this] st' have "store_frame st st'" by simp
    moreover have "\<forall>a<length st. st' ! a \<noteq> st ! a \<longrightarrow> rule = VRef a"
      using st' r by (metis nth_list_update_neq)
    ultimately show ?thesis by blast
  qed
qed

lemma convert_rules_frame:
  "convert_rules items (st, c, n) = Inr (st', c', n') \<Longrightarrow>
     store_frame st st' \<and> (\<forall>a<length st. st' ! a \<noteq> st ! a \<longrightarrow> VRef a \<in> set items)"
proof (induction items arbitrary: st c n)
  case Nil
  then show ?case by (simp add: store_frame_refl)
next
  case (Cons rule rest)
  from Cons.prems obtain st1 dc dn where
    r1: "convert_rule st rule = Inr (st1, dc, dn)" and
    r2: "convert_rules rest (st1, c + dc, n + dn) = Inr (st', c', n')"
    by (auto split: sum.splits)
  from convert_rule_frame[OF r1]
  have f1: "store_frame st st1"
    and c1: "\<forall>a<length st. st1 ! a \<noteq> st ! a \<longrightarrow> rule = VRef a" by blast+
  from Cons.IH[OF r2]
  have f2: "store_frame st1 st'"
    and c2: "\<forall>a<length st1. st' ! a \<noteq> st1 ! a \<longrightarrow> VRef a \<in> set rest" by blast+
  from store_frame_length[OF f1] have len: "length st1 = length st" .
  have "\<forall>a<length st. st' ! a \<noteq> st ! a \<longrightarrow> VRef a \<in> set (rule # rest)"
  proof (intro allI impI)
    fix a
    assume a: "a < length st" and d: "st' ! a \<noteq> st ! a"
    show "VRef a \<in> set (rule # rest)"
    proof (cases "st1 ! a = st ! a")
      case True
      with d have "st' ! a \<noteq> st1 ! a" by simp
      with c2 a len show ?thesis by simp
    next
      case False
      with c1 a show ?thesis by simp
    qed
  qed
  with store_frame_trans[OF f1 f2] show ?case by blast
qed

lemma convert_yaml_file_cases:
  assumes "convert_yaml_file st data = Inr (st', counts)"
  shows "st' = st
         \<or> (\<exists>items. convert_rules items (st, 0, 0) = Inr (st', counts)
               \<and> (\<forall>a. VRef a \<in> set items \<longrightarrow> a \<in> set (rule_records st data)))"
  using assms
  by (auto simp: convert_yaml_file_def rule_records_def
      split: val.splits option.splits obj.splits)

lemma convert_yaml_file_frame:
  assumes "convert_yaml_file st data = Inr (st', counts)"
  shows "store_frame st st'
         \<and> (\<forall>a<length st. st' ! a \<noteq> st ! a \<longrightarrow> a \<in> set (rule_records st data))"
proof -
  from convert_yaml_file_cases[OF assms] show ?thesis
  proof
    assume "st' = st"
    then show ?thesis by (simp add: store_frame_refl)
  next
    assume "\<exists>items. convert_rules items (st, 0, 0) = Inr (st', counts)
               \<and> (\<forall>a. VRef a \<in> set items \<longrightarrow> a \<in> set (rule_records st data))"
    then obtain items where
      c: "convert_rules items (st, 0, 0) = Inr (st', counts)" and
      r: "\<forall>a. VRef a \<in> set items \<longrightarrow> a \<in> set (rule_records st data)" by blast
    obtain c' n' where "counts = (c', n')" by (cases counts)
    with c convert_rules_frame[of items st 0 0 st' c' n'] r show ?thesis by blast
  qed
qed

section \<open>Properties of the converter\<close>

lemma take_all_none:
  "i < length fs \<Longrightarrow> list_all P (take i fs) \<Longrightarrow> \<forall>j<i. P (fs ! j)"
  by (auto simp: list_all_length)

lemma cascade_first:
  assumes "i < length recognizers"
      and "list_all (\<lambda>r. r (strip s) = None) (take i recognizers)"
      and "(recognizers ! i) (strip s) = Some out"
  shows "convert_condition s = out"
proof -
  from take_all_none[OF assms(1,2)] have "\<forall>j<i. (recognizers ! j) (strip s) = None" .
  from first_some_nth[OF assms(1) this assms(3)] show ?thesis
    by (simp add: convert_first_some)
qed

lemma shape3_wins:
  assumes "recognizer3 c = Some out"
  shows "recognizer1 c = None \<and> recognizer2 c = None"
proof -
  from assms have "rmatch pattern3 (c, []) \<noteq> []"
    by (auto simp: recognizer3_def re_match_def)
  from p3_excludes[OF this] show ?thesis
    by (simp add: recognizer1_def recognizer2_def re_match_def)
qed

text \<open>
  The two-where shape and the bare has-and-has shape never match the same text: after
  the first span name and its closing parenthesis the former needs \<open>.where(\<close> and the
  latter needs whitespace.
\<close>

lemma shape3_excludes_shape6:
  assumes "recognizer3 c = Some out"
  shows "recognizer5 c = None"
proof -
  from assms have "rmatch pattern3 (c, []) \<noteq> []"
    by (auto simp: recognizer3_def re_match_def)
  then have "rmatch pattern5 (c, []) = []"
    by (auto simp: pattern3_def pattern5_def seq_def steps_simps
        simp del: rmatch.simps(2-8) split: option.splits if_splits
        dest: where_not_and where_not_and')
  then show ?thesis by (simp add: recognizer5_def re_match_def)
qed

text \<open>
  C1: \<open>convert_condition\<close> returns the output of the first recognizer, in the order of
  the cascade, that matches the stripped input, whatever later recognizers would match;
  and an input that the two-where recognizer (shape 3 of the specification) matches
  always gets that recognizer's translation, so also when it matches the bare
  has-and-has shape or any other shape as well.
\<close>

theorem first_matching_recognizer_wins:
  "(i < length recognizers \<and> list_all (\<lambda>r. r (strip s) = None) (take i recognizers)
      \<and> (recognizers ! i) (strip s) = Some out
    \<longrightarrow> convert_condition s = out)
   \<and> (recognizer3 (strip s) = Some out' \<longrightarrow> convert_condition s = out')"
proof (intro conjI impI)
  assume "i < length recognizers \<and> list_all (\<lambda>r. r (strip s) = None) (take i recognizers)
      \<and> (recognizers ! i) (strip s) = Some out"
  then show "convert_condition s = out" using cascade_first by blast
next
  assume a: "recognizer3 (strip s) = Some out'"
  from shape3_wins[OF a] a show "convert_condition s = out'"
    by (simp add: convert_condition_def)
qed

theorem first_matching_recognizer_wins_witness:
  "recognizer5 ''trace.has(A) and trace.has(B).where(y==2)'' \<noteq> None
   \<and> convert_condition ''trace.has(A) and trace.has(B).where(y==2)''
       = ''when { A } always { B.where(y==2) }''
   \<and> recognizer9 ''trace.has(A).where(x==1) and trace.has(B).where(y==2)'' \<noteq> None
   \<and> convert_condition ''trace.has(A).where(x==1) and trace.has(B).where(y==2)''
       = ''when { A.where(x==1) } always { B.where(y==2) }''"
proof -
  let ?s = "''trace.has(A) and trace.has(B).where(y==2)''"
  let ?t = "''trace.has(A).where(x==1) and trace.has(B).where(y==2)''"
  have h1: "(4::nat) < length recognizers" by (simp add: recognizers_def)
  have h2: "list_all (\<lambda>r. r (strip ?s) = None) (take 4 recognizers)" by code_simp
  have h3: "(recognizers ! 4) (strip ?s) = Some ''when { A } always { B.where(y==2) }''"
    by code_simp
  have h4: "recognizer3 (strip ?t) = Some ''when { A.where(x==1) } always { B.where(y==2) }''"
    by code_simp
  have h5: "recognizer5 ?s \<noteq> None" by code_simp
  have h6: "recognizer9 ?t \<noteq> None" by code_simp
  from first_matching_recognizer_wins[of 4 ?s "''when { A } always { B.where(y==2) }''"
      "''when { A } always { B.where(y==2) }''"] h1 h2 h3
  have a: "convert_condition ?s = ''when { A } always { B.where(y==2) }''" by blast
  from first_matching_recognizer_wins[of 0 ?t "''''"
      "''when { A.where(x==1) } always { B.where(y==2) }''"] h4
  have b: "convert_condition ?t = ''when { A.where(x==1) } always { B.where(y==2) }''"
    by blast
  from a b h5 h6 show ?thesis by blast
qed

text \<open>
  C2: whenever the text that \<open>convert_condition\<close> produces contains \<open> in [\<close> or
  \<open> not in [\<close>, the batch converter stores, as the rule's condition, that text with the
  marker line \<open># TODO: DSL doesn't support 'in' operator ...\<close> in front of it, whichever
  recognizer produced the text.
\<close>

theorem in_operator_gets_marker:
  assumes "contains '' in ['' (convert_condition old) \<or> contains '' not in ['' (convert_condition old)"
      and "deref st b = Some (ODict kvs)"
      and "map_of kvs ''condition'' = Some (VStr old)"
  shows "\<exists>kvs' n. convert_rule st (VRef b) = Inr (st[b := ODict kvs'], 1, n)
           \<and> deref (st[b := ODict kvs']) b = Some (ODict kvs')
           \<and> map_of kvs' ''condition'' = Some (VStr (in_marker @ convert_condition old))
           \<and> prefix ''# TODO'' (in_marker @ convert_condition old)"
proof -
  let ?n = "(if contains ''TODO'' (convert_condition old) \<or> contains ''#'' (convert_condition old)
             then 1 else 0) + (1::nat)"
  let ?kvs = "dict_set ''condition'' (VStr (in_marker @ convert_condition old)) kvs"
  from assms(1) have "convert_rule_condition old = (in_marker @ convert_condition old, ?n)"
    by (auto simp: convert_rule_condition_def Let_def)
  with assms(2,3) have "convert_rule st (VRef b) = Inr (st[b := ODict ?kvs], 1, ?n)"
    by (simp add: convert_rule_def)
  moreover from assms(2) have "deref (st[b := ODict ?kvs]) b = Some (ODict ?kvs)"
    by (simp add: deref_def split: if_splits)
  moreover have "prefix ''# TODO'' (in_marker @ convert_condition old)"
    by (simp add: in_marker_def)
  ultimately show ?thesis using map_of_dict_set by blast
qed

theorem in_operator_gets_marker_witness:
  "\<exists>kvs' n.
     convert_rule
       [ODict [(''name'', VStr ''r1''),
               (''condition'', VStr ''trace.has(A).where(x in [1,2]) and not trace.has(B)'')]]
       (VRef 0)
       = Inr ([ODict kvs'], 1, n)
     \<and> map_of kvs' ''condition''
       = Some (VStr (in_marker @ ''when { A.where(x in [1,2]) } never { B }''))"
proof -
  let ?old = "''trace.has(A).where(x in [1,2]) and not trace.has(B)''"
  let ?kvs = "[(''name'', VStr ''r1''), (''condition'', VStr ?old)]"
  have c: "convert_condition ?old = ''when { A.where(x in [1,2]) } never { B }''"
    by code_simp
  have h1: "contains '' in ['' (convert_condition ?old) \<or> contains '' not in ['' (convert_condition ?old)"
    unfolding c by code_simp
  have h2: "deref [ODict ?kvs] 0 = Some (ODict ?kvs)" by (simp add: deref_def)
  have h3: "map_of ?kvs ''condition'' = Some (VStr ?old)" by simp
  from in_operator_gets_marker[OF h1 h2 h3] show ?thesis unfolding c by auto
qed

text \<open>
  C3, where the code departs from it: on a document whose one rule has the condition
  \<open>trace.has(X).where(a in [1])\<close> the batch converter returns the counters \<open>(1, 2)\<close>.
  The converted text carries a \<open>TODO\<close> marker and contains \<open> in [\<close>, and each of the two
  tests adds one to \<open>needs_review_count\<close>.
\<close>

theorem needs_review_counted_twice:
  "convert_yaml_file (rules_doc [''trace.has(X).where(a in [1])'']) (VRef 0)
     = Inr (rules_doc [in_marker @ ''# TODO: Add always/never clause\<newline>when { X.where(a in [1]) }''],
            1, 2)"
  by code_simp

text \<open>
  C4: \<open>convert_condition\<close> is a total function from strings to strings (its model is
  built from terminating recursive functions only, and no branch of it is an error); when no
  recognizer matches the stripped input, the result is the manual-review marker followed by
  the stripped input in a comment line.
\<close>

theorem unrecognized_input_gets_manual_review:
  "list_all (\<lambda>r. r (strip s) = None) recognizers \<Longrightarrow>
     convert_condition s = ''# TODO: Manual conversion required\<newline># Original: '' @ strip s"
  using no_match_fallback[of s] by (simp add: manual_review_def)

theorem unrecognized_input_gets_manual_review_witness:
  "convert_condition ''  span.count > 5 ''
     = ''# TODO: Manual conversion required\<newline># Original: span.count > 5''"
proof -
  have h: "list_all (\<lambda>r. r (strip ''  span.count > 5 '') = None) recognizers" by code_simp
  have s: "strip ''  span.count > 5 '' = ''span.count > 5''" by code_simp
  from unrecognized_input_gets_manual_review[OF h] show ?thesis unfolding s by simp
qed

text \<open>
  C7: a text that, once stripped, does not begin with \<open>trace.\<close> is matched by no
  recognizer and takes the fallback branch; every text in the current dialect begins with
  \<open>when\<close> and is such a text. Every output of \<open>convert_condition\<close> begins with
  \<open>when { \<close> or with \<open># TODO: \<close>, so converting an output again matches no recognizer
  and wraps the output in the manual-review marker.
\<close>

theorem conversion_not_self_applicable:
  "(\<not> prefix ''trace.'' (strip s) \<longrightarrow>
       list_all (\<lambda>r. r (strip s) = None) recognizers
       \<and> convert_condition s = manual_review (strip s))
   \<and> (prefix ''when { '' (convert_condition s) \<or> prefix ''# TODO: '' (convert_condition s))
   \<and> list_all (\<lambda>r. r (strip (convert_condition s)) = None) recognizers
   \<and> convert_condition (convert_condition s) = manual_review (strip (convert_condition s))"
  using no_trace_none[of "strip s"] no_match_fallback[of s] convert_output_head[of s]
    no_trace_none[OF output_not_trace[of s]]
    no_match_fallback[OF no_trace_none[OF output_not_trace[of s]]]
  by blast

theorem conversion_not_self_applicable_witness:
  "convert_condition ''when { A } always { B }''
     = ''# TODO: Manual conversion required\<newline># Original: when { A } always { B }''
   \<and> convert_condition (convert_condition ''trace.has(A) and trace.has(B)'')
     = ''# TODO: Manual conversion required\<newline># Original: when { A } always { B }''"
proof -
  have h: "\<not> prefix ''trace.'' (strip ''when { A } always { B }'')" by code_simp
  have m: "manual_review (strip ''when { A } always { B }'')
           = ''# TODO: Manual conversion required\<newline># Original: when { A } always { B }''"
    by code_simp
  have c: "convert_condition ''trace.has(A) and trace.has(B)'' = ''when { A } always { B }''"
    by code_simp
  from conversion_not_self_applicable[of "''when { A } always { B }''"] h m
  have a: "convert_condition ''when { A } always { B }''
           = ''# TODO: Manual conversion required\<newline># Original: when { A } always { B }''"
    by simp
  from conversion_not_self_applicable[of "''trace.has(A) and trace.has(B)''"] m
  have "convert_condition (convert_condition ''trace.has(A) and trace.has(B)'')
        = ''# TODO: Manual conversion required\<newline># Original: when { A } always { B }''"
    unfolding c by simp
  with a show ?thesis by blast
qed

text \<open>
  C8, as the program has it: the batch converter writes to mappings that the list under
  \<open>rules\<close> refers to, and to nothing else, and in them only under the key \<open>condition\<close>.
  Every mapping of the document keeps its keys in their order and, under every key other
  than \<open>condition\<close>, the value it had, which for a nested mapping or list is the reference
  to the same object; every list, so also the list of records with its order, is
  unchanged.
\<close>

theorem only_condition_is_written:
  "convert_yaml_file st data = Inr (st', counts) \<Longrightarrow>
     store_frame st st'
     \<and> (\<forall>a<length st. st' ! a \<noteq> st ! a \<longrightarrow> a \<in> set (rule_records st data))"
  by (rule convert_yaml_file_frame)

text \<open>
  The witness is the document \<open>defaults: &r {condition: ...}\<close>, \<open>rules: [*r, *r]\<close>. The
  one record is converted twice, the second time to the manual-review text, and the
  counters are \<open>(2, 1)\<close>.
\<close>

theorem only_condition_is_written_witness:
  "convert_yaml_file
     [ODict [(''defaults'', VRef 1), (''rules'', VRef 2)],
      ODict [(''name'', VStr ''r1''), (''condition'', VStr ''trace.has(A) and trace.has(B)'')],
      OList [VRef 1, VRef 1]]
     (VRef 0)
   = Inr ([ODict [(''defaults'', VRef 1), (''rules'', VRef 2)],
           ODict [(''name'', VStr ''r1''),
                  (''condition'',
                   VStr ''# TODO: Manual conversion required\<newline># Original: when { A } always { B }'')],
           OList [VRef 1, VRef 1]], 2, 1)
   \<and> store_frame
     [ODict [(''defaults'', VRef 1), (''rules'', VRef 2)],
      ODict [(''name'', VStr ''r1''), (''condition'', VStr ''trace.has(A) and trace.has(B)'')],
      OList [VRef 1, VRef 1]]
     [ODict [(''defaults'', VRef 1), (''rules'', VRef 2)],
      ODict [(''name'', VStr ''r1''),
             (''condition'',
              VStr ''# TODO: Manual conversion required\<newline># Original: when { A } always { B }'')],
      OList [VRef 1, VRef 1]]"
proof -
  have h: "convert_yaml_file
     [ODict [(''defaults'', VRef 1), (''rules'', VRef 2)],
      ODict [(''name'', VStr ''r1''), (''condition'', VStr ''trace.has(A) and trace.has(B)'')],
      OList [VRef 1, VRef 1]]
     (VRef 0)
   = Inr ([ODict [(''defaults'', VRef 1), (''rules'', VRef 2)],
           ODict [(''name'', VStr ''r1''),
                  (''condition'',
                   VStr ''# TODO: Manual conversion required\<newline># Original: when { A } always { B }'')],
           OList [VRef 1, VRef 1]], 2, 1)"
    by code_simp
  from only_condition_is_written[OF h] h show ?thesis by blast
qed

text \<open>
  C8 as it is stated fails where a record is shared. In the document
  \<open>rules: [&a {condition: trace.has(A) and trace.has(B)}, {name: r2, base: *a}]\<close>
  the second record has no condition, and its field \<open>base\<close> is the first record. After the
  conversion the value that \<open>base\<close> shows has the converted condition: read as trees, the
  documents before and after differ in a field other than \<open>condition\<close>.
\<close>

theorem shared_record_changes_other_field:
  "convert_yaml_file
     [ODict [(''rules'', VRef 1)],
      OList [VRef 2, VRef 3],
      ODict [(''condition'', VStr ''trace.has(A) and trace.has(B)'')],
      ODict [(''name'', VStr ''r2''), (''base'', VRef 2)]]
     (VRef 0)
   = Inr ([ODict [(''rules'', VRef 1)],
           OList [VRef 2, VRef 3],
           ODict [(''condition'', VStr ''when { A } always { B }'')],
           ODict [(''name'', VStr ''r2''), (''base'', VRef 2)]], 1, 0)
   \<and> resolve 4
       [ODict [(''rules'', VRef 1)],
        OList [VRef 2, VRef 3],
        ODict [(''condition'', VStr ''trace.has(A) and trace.has(B)'')],
        ODict [(''name'', VStr ''r2''), (''base'', VRef 2)]]
       (VRef 0)
     = Some (YMap [(''rules'', YList
          [YMap [(''condition'', YStr ''trace.has(A) and trace.has(B)'')],
           YMap [(''name'', YStr ''r2''),
                 (''base'', YMap [(''condition'', YStr ''trace.has(A) and trace.has(B)'')])]])])
   \<and> resolve 4
       [ODict [(''rules'', VRef 1)],
        OList [VRef 2, VRef 3],
        ODict [(''condition'', VStr ''when { A } always { B }'')],
        ODict [(''name'', VStr ''r2''), (''base'', VRef 2)]]
       (VRef 0)
     = Some (YMap [(''rules'', YList
          [YMap [(''condition'', YStr ''when { A } always { B }'')],
           YMap [(''name'', YStr ''r2''),
                 (''base'', YMap [(''condition'', YStr ''when { A } always { B }'')])]])])
   \<and> \<not> document_frame
       (YMap [(''rules'', YList
          [YMap [(''condition'', YStr ''trace.has(A) and trace.has(B)'')],
           YMap [(''name'', YStr ''r2''),
                 (''base'', YMap [(''condition'', YStr ''trace.has(A) and trace.has(B)'')])]])])
       (YMap [(''rules'', YList
          [YMap [(''condition'', YStr ''when { A } always { B }'')],
           YMap [(''name'', YStr ''r2''),
                 (''base'', YMap [(''condition'', YStr ''when { A } always { B }'')])]])])"
  by code_simp

text \<open>
  C10: the patterns are matched at the start of the stripped input and need not cover it.
  When a pattern is the first of the cascade to match and \<open>m\<close> is the text its match
  covers, \<open>m\<close> is a prefix of the stripped input, and what \<open>convert_condition\<close> returns is
  the output of that pattern's recognizer, which is the same on the input as on \<open>m\<close> alone
  and is what \<open>convert_condition\<close> returns on \<open>m\<close>: the text after \<open>m\<close> leaves no trace in
  the output. So \<open>trace.has(A) and trace.has(B) and not trace.has(C)\<close> becomes
  \<open>when { A } always { B }\<close>.
\<close>

theorem trailing_text_is_dropped:
  "(i < length patterns \<and> list_all (\<lambda>p. re_match p (strip s) = None) (take i patterns)
      \<and> group0 (patterns ! i) (strip s) = Some m
    \<longrightarrow> prefix m (strip s)
        \<and> (\<exists>out. (recognizers ! i) (strip s) = Some out \<and> (recognizers ! i) m = Some out
                 \<and> convert_condition s = out \<and> convert_condition m = out))
   \<and> convert_condition ''trace.has(A) and trace.has(B) and not trace.has(C)''
     = ''when { A } always { B }''"
proof (rule conjI)
  show "i < length patterns \<and> list_all (\<lambda>p. re_match p (strip s) = None) (take i patterns)
      \<and> group0 (patterns ! i) (strip s) = Some m
    \<longrightarrow> prefix m (strip s)
        \<and> (\<exists>out. (recognizers ! i) (strip s) = Some out \<and> (recognizers ! i) m = Some out
                 \<and> convert_condition s = out \<and> convert_condition m = out)"
  proof (rule impI)
    assume a: "i < length patterns
      \<and> list_all (\<lambda>p. re_match p (strip s) = None) (take i patterns)
      \<and> group0 (patterns ! i) (strip s) = Some m"
    then have "\<forall>j<i. re_match (patterns ! j) (strip s) = None"
      using take_all_none[of i patterns "\<lambda>p. re_match p (strip s) = None"] by blast
    with a prefix_translation[of i "strip s" m]
    have p: "prefix m (strip s)" and sm: "strip m = m"
      and fm: "first_some recognizers m = first_some recognizers (strip s)"
      and fc: "first_some recognizers (strip s) = (recognizers ! i) (strip s)"
      and ne: "(recognizers ! i) (strip s) \<noteq> None"
      and same: "(recognizers ! i) m = (recognizers ! i) (strip s)" by auto
    from ne obtain out where out: "(recognizers ! i) (strip s) = Some out" by auto
    with fc have "convert_condition s = out" by (simp add: convert_first_some)
    moreover from out fc fm sm have "convert_condition m = out"
      by (simp add: convert_first_some)
    ultimately show "prefix m (strip s)
        \<and> (\<exists>out. (recognizers ! i) (strip s) = Some out \<and> (recognizers ! i) m = Some out
                 \<and> convert_condition s = out \<and> convert_condition m = out)"
      using p out same by auto
  qed
next
  show "convert_condition ''trace.has(A) and trace.has(B) and not trace.has(C)''
     = ''when { A } always { B }''" by code_simp
qed

theorem trailing_text_is_dropped_witness:
  "group0 pattern5 ''trace.has(A) and trace.has(B) and not trace.has(C)''
     = Some ''trace.has(A) and trace.has(B)''
   \<and> recognizer5 ''trace.has(A) and trace.has(B) and not trace.has(C)''
     = Some ''when { A } always { B }''
   \<and> recognizer5 ''trace.has(A) and trace.has(B)'' = Some ''when { A } always { B }''
   \<and> convert_condition ''trace.has(A) and trace.has(B)'' = ''when { A } always { B }''"
proof -
  let ?s = "''trace.has(A) and trace.has(B) and not trace.has(C)''"
  let ?m = "''trace.has(A) and trace.has(B)''"
  have h1: "(5::nat) < length patterns" by (simp add: patterns_def)
  have h2: "list_all (\<lambda>p. re_match p (strip ?s) = None) (take 5 patterns)" by code_simp
  have h3: "group0 (patterns ! 5) (strip ?s) = Some ?m" by code_simp
  have h4: "group0 pattern5 ?s = Some ?m" by code_simp
  have h5: "recognizers ! 5 = recognizer5" by (simp add: recognizers_def)
  have h6: "strip ?s = ?s" by code_simp
  have h7: "recognizer5 ?s = Some ''when { A } always { B }''" by code_simp
  from trailing_text_is_dropped[of 5 ?s ?m] h1 h2 h3
  obtain out where "(recognizers ! 5) (strip ?s) = Some out"
    "(recognizers ! 5) ?m = Some out" "convert_condition ?m = out" by blast
  with h4 h5 h6 h7 show ?thesis by simp
qed

section \<open>Positions of the parser's diagnostics\<close>

lemma lexer_next_invariant:
  assumes "lex_pos lx \<le> length (lex_input lx)"
  shows "lex_input (snd (lexer_next L lx)) = lex_input lx
         \<and> lex_pos (snd (lexer_next L lx)) \<le> length (lex_input lx)
         \<and> tok_position (fst (lexer_next L lx)) \<le> length (lex_input lx)"
proof -
  define start where
    "start = lex_pos lx + length (takeWhile (is_blank L) (drop (lex_pos lx) (lex_input lx)))"
  define rest where "rest = drop start (lex_input lx)"
  have "length (takeWhile (is_blank L) (drop (lex_pos lx) (lex_input lx)))
          \<le> length (drop (lex_pos lx) (lex_input lx))"
    by (rule length_takeWhile_le)
  with assms have start: "start \<le> length (lex_input lx)"
    unfolding start_def by simp
  then have rest: "start + length rest = length (lex_input lx)"
    unfolding rest_def by simp
  show ?thesis
  proof (cases "rest = []")
    case True
    then have "lexer_next L lx
        = (\<lparr>tok_kind = EndOfInput, tok_text = [], tok_position = start\<rparr>,
           lx\<lparr>lex_pos := start\<rparr>)"
      unfolding lexer_next_def Let_def start_def[symmetric] rest_def[symmetric] by simp
    with start show ?thesis by simp
  next
    case False
    obtain k n where scan: "scan_token L rest = (k, n)" by (cases "scan_token L rest")
    define len where "len = min (max n 1) (length rest)"
    from False scan have "lexer_next L lx
        = (\<lparr>tok_kind = k, tok_text = take len rest, tok_position = start\<rparr>,
           lx\<lparr>lex_pos := start + len\<rparr>)"
      unfolding lexer_next_def Let_def start_def[symmetric] rest_def[symmetric] len_def
      by simp
    moreover have "start + len \<le> length (lex_input lx)"
      using rest unfolding len_def by linarith
    ultimately show ?thesis using start by simp
  qed
qed

lemma nth_next_invariant:
  "lex_pos lx \<le> length (lex_input lx) \<Longrightarrow>
     lex_input (snd (nth_next L lx n)) = lex_input lx
     \<and> tok_position (fst (nth_next L lx n)) \<le> length (lex_input lx)"
proof (induction n arbitrary: lx)
  case 0
  with lexer_next_invariant[of lx L] show ?case by (simp only: nth_next.simps)
next
  case (Suc n)
  let ?lx = "snd (lexer_next L lx)"
  from lexer_next_invariant[OF Suc.prems, of L]
  have i: "lex_input ?lx = lex_input lx" and "lex_pos ?lx \<le> length (lex_input lx)"
    by blast+
  then have p: "lex_pos ?lx \<le> length (lex_input ?lx)" by (simp only:)
  from Suc.IH[OF p] i show ?case by (simp only: nth_next.simps)
qed

text \<open>
  C9: the error for an empty input has its position at the end of that input, and an error
  raised at a token that any call of \<open>lexer.next()\<close> returned, in the lexer's state at
  that moment, has a position between 0 and the length of the input it carries, whatever
  its kind and whatever the lexer takes for whitespace and for a token.
\<close>

theorem parse_error_position_in_input:
  "err_position (unexpected_end dsl) \<le> length (err_input (unexpected_end dsl))
   \<and> 0 \<le> err_position (raise_at k (snd (nth_next L (new_lexer dsl) n))
                                   (fst (nth_next L (new_lexer dsl) n)))
   \<and> err_position (raise_at k (snd (nth_next L (new_lexer dsl) n))
                               (fst (nth_next L (new_lexer dsl) n)))
       \<le> length (err_input (raise_at k (snd (nth_next L (new_lexer dsl) n))
                                        (fst (nth_next L (new_lexer dsl) n))))"
proof -
  have "lex_pos (new_lexer dsl) \<le> length (lex_input (new_lexer dsl))"
    by (simp add: new_lexer_def)
  from nth_next_invariant[OF this, of L n] show ?thesis
    by (simp add: unexpected_end_def raise_at_def)
qed

section \<open>Concrete conversions\<close>

text \<open>
  C5: the input \<open>trace.has(A).where(x==1) and not trace.has(B)\<close> is converted to
  \<open>when { A.where(x==1) } never { B }\<close>, and the batch converter, run on a document
  with this one rule, stores that text and counts one converted rule and no rule needing
  review.
\<close>

theorem convert_has_where_and_not_has:
  "convert_condition ''trace.has(A).where(x==1) and not trace.has(B)''
     = ''when { A.where(x==1) } never { B }''
   \<and> convert_yaml_file (rules_doc [''trace.has(A).where(x==1) and not trace.has(B)'']) (VRef 0)
     = Inr (rules_doc [''when { A.where(x==1) } never { B }''], 1, 0)"
  by code_simp

text \<open>
  C6: the input \<open>trace.count(X) > 5\<close> is converted to the marker line
  \<open># TODO: Add always/never clause (e.g., always { alert })\<close>, a newline and
  \<open>when { count(X) > 5 }\<close>, and the batch converter counts this rule as needing review.
\<close>

theorem convert_count_bound:
  "convert_condition ''trace.count(X) > 5''
     = ''# TODO: Add always/never clause (e.g., always { alert })\<newline>when { count(X) > 5 }''
   \<and> convert_yaml_file (rules_doc [''trace.count(X) > 5'']) (VRef 0)
     = Inr (rules_doc [''# TODO: Add always/never clause (e.g., always { alert })\<newline>when { count(X) > 5 }''],
            1, 1)"
  by code_simp

end
